theory Spec2Isabelle
  imports Main "HOL-Library.Word"
begin

unbundle bit_operations_syntax

section \<open>Bytes, buffers and machine sizes\<close>

text \<open>
  A \<^verbatim>\<open>std::vector<uint8_t>\<close> is a list of 8-bit words. \<^verbatim>\<open>size_t\<close> is taken to be
  64 bits wide (the x64 build of the tool); a \<^verbatim>\<open>size_t\<close> value is a natural number
  and the wrap-around modulo \<open>2 ^ 64\<close> is written out at the operations whose operands
  are not bounded by what precedes them: \<^verbatim>\<open>startOffset + 12\<close>,
  \<^verbatim>\<open>fileBuffer.size() - startOffset\<close>, \<^verbatim>\<open>n - 12\<close>, \<^verbatim>\<open>n - off\<close> and
  \<^verbatim>\<open>r.offset + r.consumedSize\<close>. The stream cursors start from 32-bit header
  values and advance by at most 4 only after a bound check against a \<^verbatim>\<open>size_t\<close>,
  so their additions are plain.
\<close>

type_synonym byte = "8 word"

definition size_add :: "nat \<Rightarrow> nat \<Rightarrow> nat" where
  "size_add a b = (a + b) mod 2 ^ 64"

definition size_sub :: "nat \<Rightarrow> nat \<Rightarrow> nat" where
  "size_sub a b = (a + 2 ^ 64 - b) mod 2 ^ 64"

text \<open>
  The source reads memory through raw pointers
  (\<^verbatim>\<open>*reinterpret_cast<const uint32_t*>(data + pos)\<close>, \<^verbatim>\<open>data[pos]\<close>). A read whose
  bytes do not all lie inside the vector is undefined behaviour in C++; here it is the
  value \<open>None\<close>, which the callers turn into the error \<open>OutOfBounds\<close>. Multi-byte
  reads are little-endian, as on the x86 targets of the tool.
\<close>

definition rd_u8 :: "byte list \<Rightarrow> nat \<Rightarrow> byte option" where
  "rd_u8 buf i = (if i < length buf then Some (buf ! i) else None)"

definition rd_u16 :: "byte list \<Rightarrow> nat \<Rightarrow> 16 word option" where
  "rd_u16 buf i =
     (if i + 2 \<le> length buf
      then Some (word_of_nat (unat (buf ! i) + 256 * unat (buf ! (i + 1))))
      else None)"

definition rd_u32 :: "byte list \<Rightarrow> nat \<Rightarrow> 32 word option" where
  "rd_u32 buf i =
     (if i + 4 \<le> length buf
      then Some (word_of_nat (unat (buf ! i) + 256 * unat (buf ! (i + 1))
                   + 65536 * unat (buf ! (i + 2)) + 16777216 * unat (buf ! (i + 3))))
      else None)"

section \<open>Errors\<close>

text \<open>
  \<open>MalformedBlock\<close> is the \<^verbatim>\<open>std::runtime_error\<close> of \<^verbatim>\<open>decompressLZSSBlock\<close>, with
  one tag for each of its four \<^verbatim>\<open>throw\<close> statements.
\<close>

datatype malformed = BlockTooSmall | InvalidOffsets | LiteralsEnded | PairsEnded

datatype error = MalformedBlock malformed | OutOfBounds

section \<open>The state of one decoding loop\<close>

text \<open>
  The local variables shared by the loops of \<^verbatim>\<open>decompressLZSSBlock\<close> and
  \<^verbatim>\<open>validateAndGetConsumedSize\<close>; the decoder adds its output vector \<^verbatim>\<open>out\<close>, the
  validator its counter \<^verbatim>\<open>decompressedSize\<close> (the field \<open>decompressedSize_cnt\<close>: the
  plain name is the field of the result structure below).
\<close>

record lz_state =
  flags_pos :: nat
  lit_pos :: nat
  pair_pos :: nat
  dict_buf :: "byte list"
  dict_index :: nat
  flag_word :: "32 word"
  mask_w :: "32 word"

record dec_state = lz_state +
  out :: "byte list"

record val_state = lz_state +
  decompressedSize_cnt :: nat

section \<open>The decoder: decompressLZSSBlock\<close>

text \<open>
  One iteration of \<^verbatim>\<open>while (true)\<close> either goes on with a new state, leaves the loop
  (\<^verbatim>\<open>break\<close>, after which the function returns \<^verbatim>\<open>out\<close>; the flag says whether the
  warning was written to \<^verbatim>\<open>std::cerr\<close>), or throws. The result of the function is the
  output vector together with that flag. Allocation (\<^verbatim>\<open>out.reserve\<close>,
  \<^verbatim>\<open>push_back\<close>, the dictionary vector) is taken to succeed.
\<close>

datatype dec_step = Continue dec_state | Break "byte list" bool | Throw error

text \<open>The \<^verbatim>\<open>for (int i = 0; i < length; i++)\<close> loop of a back-reference.\<close>

function dec_copy :: "nat \<Rightarrow> nat \<Rightarrow> nat \<Rightarrow> dec_state \<Rightarrow> dec_state" where
  "dec_copy offset i len st =
     (if i < len then
        (let b = dict_buf st ! ((offset + i) mod 4096) in
         dec_copy offset (i + 1) len
           (st\<lparr>out := out st @ [b],
               dict_buf := (dict_buf st)[dict_index st := b],
               dict_index := (dict_index st + 1) mod 4096\<rparr>))
      else st)"
  by pat_completeness auto
termination
  by (relation "measure (\<lambda>(offset, i, len, st). len - i)") auto

declare dec_copy.simps [simp del]

text \<open>The branch \<^verbatim>\<open>if (bit_set) { ... }\<close>: one literal byte.\<close>

definition dec_literal :: "byte list \<Rightarrow> nat \<Rightarrow> dec_state \<Rightarrow> dec_step" where
  "dec_literal block off_pairs st =
     (if lit_pos st \<ge> off_pairs then Throw (MalformedBlock LiteralsEnded)
      else
        case rd_u8 block (lit_pos st) of
          None \<Rightarrow> Throw OutOfBounds
        | Some literal \<Rightarrow>
            Continue (st\<lparr>lit_pos := lit_pos st + 1,
                         out := out st @ [literal],
                         dict_buf := (dict_buf st)[dict_index st := literal],
                         dict_index := (dict_index st + 1) mod 4096\<rparr>))"

text \<open>The branch \<^verbatim>\<open>else { ... }\<close>: one pair code, the terminator or a back-reference.\<close>

definition dec_pair :: "byte list \<Rightarrow> dec_state \<Rightarrow> dec_step" where
  "dec_pair block st =
     (if pair_pos st + 2 > length block then Throw (MalformedBlock PairsEnded)
      else
        case rd_u16 block (pair_pos st) of
          None \<Rightarrow> Throw OutOfBounds
        | Some pair_val \<Rightarrow>
            (let st' = st\<lparr>pair_pos := pair_pos st + 2\<rparr>;
                 offset = unat (drop_bit 4 pair_val)
             in
               if offset = 0 then Break (out st') False
               else
                 (let len = unat (pair_val AND 0xF) + 2
                  in Continue (dec_copy offset 0 len st'))))"

text \<open>The flag bit under the mask is tested, the mask is shifted, the branch is taken.\<close>

definition dec_bit :: "byte list \<Rightarrow> nat \<Rightarrow> dec_state \<Rightarrow> dec_step" where
  "dec_bit block off_pairs st =
     (let bit_set = (flag_word st AND mask_w st \<noteq> 0);
          st' = st\<lparr>mask_w := drop_bit 1 (mask_w st)\<rparr>
      in if bit_set then dec_literal block off_pairs st' else dec_pair block st')"

text \<open>One iteration of the loop, starting with the reload of an exhausted mask.\<close>

definition dec_iter :: "byte list \<Rightarrow> nat \<Rightarrow> nat \<Rightarrow> dec_state \<Rightarrow> dec_step" where
  "dec_iter block off_literals off_pairs st =
     (if mask_w st = 0 then
        (if flags_pos st + 4 > off_literals then
           Break (out st) (flags_pos st < off_literals)
         else
           case rd_u32 block (flags_pos st) of
             None \<Rightarrow> Throw OutOfBounds
           | Some w \<Rightarrow>
               dec_bit block off_pairs
                 (st\<lparr>mask_w := 0x80000000, flag_word := w, flags_pos := flags_pos st + 4\<rparr>))
      else dec_bit block off_pairs st)"

function dec_loop :: "byte list \<Rightarrow> nat \<Rightarrow> nat \<Rightarrow> dec_state \<Rightarrow> error + (byte list \<times> bool)" where
  "dec_loop block off_literals off_pairs st =
     (case dec_iter block off_literals off_pairs st of
        Continue st' \<Rightarrow> dec_loop block off_literals off_pairs st'
      | Break bytes warned \<Rightarrow> Inr (bytes, warned)
      | Throw e \<Rightarrow> Inl e)"
  by pat_completeness auto
termination
proof (relation "measure (\<lambda>(block, off_literals, off_pairs, st).
                   2 ^ 32 * (off_literals - flags_pos st) + unat (mask_w st))")
  show "wf (measure (\<lambda>(block, off_literals, off_pairs, st).
              2 ^ 32 * (off_literals - flags_pos st) + unat (mask_w st)))"
    by simp
next
  fix block :: "byte list" and off_literals off_pairs :: nat and st st' :: dec_state
  assume step: "dec_iter block off_literals off_pairs st = Continue st'"
  have frame_pos: "flags_pos (dec_copy offset i len s) = flags_pos s" for offset i len s
    by (induction offset i len s rule: dec_copy.induct)
       (subst dec_copy.simps, simp add: Let_def)
  have frame_mask: "mask_w (dec_copy offset i len s) = mask_w s" for offset i len s
    by (induction offset i len s rule: dec_copy.induct)
       (subst dec_copy.simps, simp add: Let_def)
  have lit: "flags_pos s' = flags_pos s \<and> mask_w s' = mask_w s"
    if "dec_literal block off_pairs s = Continue s'" for s s'
    using that by (auto simp: dec_literal_def split: if_splits option.splits)
  have pair: "flags_pos s' = flags_pos s \<and> mask_w s' = mask_w s"
    if "dec_pair block s = Continue s'" for s s'
    using that by (auto simp: dec_pair_def Let_def frame_pos frame_mask split: if_splits option.splits)
  have bit: "flags_pos s' = flags_pos s \<and> mask_w s' = drop_bit 1 (mask_w s)"
    if "dec_bit block off_pairs s = Continue s'" for s s'
  proof (cases "flag_word s AND mask_w s \<noteq> 0")
    case True
    with that have "dec_literal block off_pairs (s\<lparr>mask_w := drop_bit 1 (mask_w s)\<rparr>) = Continue s'"
      by (simp add: dec_bit_def)
    from lit [OF this] show ?thesis by simp
  next
    case False
    with that have "dec_pair block (s\<lparr>mask_w := drop_bit 1 (mask_w s)\<rparr>) = Continue s'"
      by (simp add: dec_bit_def)
    from pair [OF this] show ?thesis by simp
  qed
  have shrink: "unat (drop_bit 1 m) < unat m" if "m \<noteq> 0" for m :: "32 word"
  proof -
    have "unat m \<noteq> 0" using that by (simp add: unat_eq_0)
    then show ?thesis by (simp add: unat_drop_bit_eq drop_bit_Suc unat_div)
  qed
  have top: "unat (drop_bit 1 (0x80000000 :: 32 word)) = 1073741824"
    by (simp add: unat_drop_bit_eq drop_bit_Suc)
  show "((block, off_literals, off_pairs, st'), (block, off_literals, off_pairs, st))
          \<in> measure (\<lambda>(block, off_literals, off_pairs, st).
               2 ^ 32 * (off_literals - flags_pos st) + unat (mask_w st))"
  proof (cases "mask_w st = 0")
    case True
    with step have le: "flags_pos st + 4 \<le> off_literals"
      by (simp add: dec_iter_def split: if_splits)
    from step True le obtain w where
      "dec_bit block off_pairs
         (st\<lparr>mask_w := 0x80000000, flag_word := w, flags_pos := flags_pos st + 4\<rparr>) = Continue st'"
      by (simp add: dec_iter_def split: option.splits)
    from bit [OF this] have "flags_pos st' = flags_pos st + 4"
      and "unat (mask_w st') = 1073741824"
      by (simp_all add: top)
    with le True show ?thesis by simp
  next
    case False
    with step have "dec_bit block off_pairs st = Continue st'"
      by (simp add: dec_iter_def)
    from bit [OF this] shrink [OF False] show ?thesis by simp
  qed
qed

declare dec_loop.simps [simp del]

definition dec_init :: "nat \<Rightarrow> nat \<Rightarrow> dec_state" where
  "dec_init off_literals off_pairs =
     \<lparr>flags_pos = 8, lit_pos = off_literals, pair_pos = off_pairs,
      dict_buf = replicate 4096 0, dict_index = 1,
      flag_word = 0, mask_w = 0, out = []\<rparr>"

definition decompressLZSSBlock :: "byte list \<Rightarrow> error + (byte list \<times> bool)" where
  "decompressLZSSBlock block =
     (if length block < 12 then Inl (MalformedBlock BlockTooSmall)
      else
        case rd_u32 block 0 of
          None \<Rightarrow> Inl OutOfBounds
        | Some w0 \<Rightarrow>
            (case rd_u32 block 4 of
               None \<Rightarrow> Inl OutOfBounds
             | Some w1 \<Rightarrow>
                 (let off_literals = unat w0; off_pairs = unat w1 in
                  if off_literals \<ge> length block \<or> off_pairs \<ge> length block \<or> off_literals < 8
                  then Inl (MalformedBlock InvalidOffsets)
                  else dec_loop block off_literals off_pairs (dec_init off_literals off_pairs))))"

section \<open>The validator: validateAndGetConsumedSize\<close>

record DecompressValidationResult =
  success :: bool
  consumedBytes :: nat
  decompressedSize :: nat

text \<open>
  The validator's loop is left in four ways: by one of its three \<^verbatim>\<open>break\<close> statements
  (the flag stream, the literal stream or the pair stream has ended), after which the
  function returns \<^verbatim>\<open>{ false, 0, 0 }\<close>; by the \<^verbatim>\<open>return { true, consumed,
  decompressedSize }\<close> at the terminator; or by a read outside the vector. Nothing in the
  \<^verbatim>\<open>try\<close> block throws a C++ exception (all reads are raw pointer reads and unchecked
  \<^verbatim>\<open>operator[]\<close>), so the \<^verbatim>\<open>catch (...)\<close> handler has no counterpart.

  The counter \<^verbatim>\<open>decompressedSize\<close> grows by at most 17 for each flag bit and there are
  fewer than \<open>2 ^ 35\<close> flag bits before \<^verbatim>\<open>off_literals\<close>, a 32-bit value, so its
  increments are plain: the count stays below \<open>2 ^ 40\<close> (\<open>validate_count_bound\<close>
  below).
\<close>

datatype stream = FlagStream | LiteralStream | PairStream

datatype val_step =
  VContinue val_state | VBreak stream | VReturn DecompressValidationResult | VFault

datatype val_end = Broke stream | Returned DecompressValidationResult

function val_copy :: "nat \<Rightarrow> nat \<Rightarrow> nat \<Rightarrow> val_state \<Rightarrow> val_state" where
  "val_copy offset i len st =
     (if i < len then
        (let b = dict_buf st ! ((offset + i) mod 4096) in
         val_copy offset (i + 1) len
           (st\<lparr>decompressedSize_cnt := decompressedSize_cnt st + 1,
               dict_buf := (dict_buf st)[dict_index st := b],
               dict_index := (dict_index st + 1) mod 4096\<rparr>))
      else st)"
  by pat_completeness auto
termination
  by (relation "measure (\<lambda>(offset, i, len, st). len - i)") auto

declare val_copy.simps [simp del]

text \<open>
  \<^verbatim>\<open>data\<close> is \<^verbatim>\<open>fileBuffer.data() + startOffset\<close>: the byte \<^verbatim>\<open>data[k]\<close> is the byte of
  the vector at index \<open>startOffset + k\<close>.
\<close>

definition val_literal :: "byte list \<Rightarrow> nat \<Rightarrow> nat \<Rightarrow> val_state \<Rightarrow> val_step" where
  "val_literal fileBuffer startOffset off_pairs st =
     (if lit_pos st \<ge> off_pairs then VBreak LiteralStream
      else
        case rd_u8 fileBuffer (startOffset + lit_pos st) of
          None \<Rightarrow> VFault
        | Some literal \<Rightarrow>
            VContinue (st\<lparr>lit_pos := lit_pos st + 1,
                          decompressedSize_cnt := decompressedSize_cnt st + 1,
                          dict_buf := (dict_buf st)[dict_index st := literal],
                          dict_index := (dict_index st + 1) mod 4096\<rparr>))"

definition val_pair :: "byte list \<Rightarrow> nat \<Rightarrow> nat \<Rightarrow> val_state \<Rightarrow> val_step" where
  "val_pair fileBuffer startOffset remainingSize st =
     (if pair_pos st + 2 > remainingSize then VBreak PairStream
      else
        case rd_u16 fileBuffer (startOffset + pair_pos st) of
          None \<Rightarrow> VFault
        | Some pair_val \<Rightarrow>
            (let st' = st\<lparr>pair_pos := pair_pos st + 2\<rparr>;
                 offset = unat (drop_bit 4 pair_val)
             in
               if offset = 0 then
                 (let consumed = pair_pos st'
                  in VReturn \<lparr>success = True, consumedBytes = consumed,
                              decompressedSize = decompressedSize_cnt st'\<rparr>)
               else
                 (let len = unat (pair_val AND 0xF) + 2
                  in VContinue (val_copy offset 0 len st'))))"

definition val_bit :: "byte list \<Rightarrow> nat \<Rightarrow> nat \<Rightarrow> nat \<Rightarrow> val_state \<Rightarrow> val_step" where
  "val_bit fileBuffer startOffset remainingSize off_pairs st =
     (let bit_set = (flag_word st AND mask_w st \<noteq> 0);
          st' = st\<lparr>mask_w := drop_bit 1 (mask_w st)\<rparr>
      in if bit_set then val_literal fileBuffer startOffset off_pairs st'
         else val_pair fileBuffer startOffset remainingSize st')"

definition val_iter ::
  "byte list \<Rightarrow> nat \<Rightarrow> nat \<Rightarrow> nat \<Rightarrow> nat \<Rightarrow> val_state \<Rightarrow> val_step" where
  "val_iter fileBuffer startOffset remainingSize off_literals off_pairs st =
     (if mask_w st = 0 then
        (if flags_pos st + 4 > off_literals then VBreak FlagStream
         else
           case rd_u32 fileBuffer (startOffset + flags_pos st) of
             None \<Rightarrow> VFault
           | Some w \<Rightarrow>
               val_bit fileBuffer startOffset remainingSize off_pairs
                 (st\<lparr>mask_w := 0x80000000, flag_word := w, flags_pos := flags_pos st + 4\<rparr>))
      else val_bit fileBuffer startOffset remainingSize off_pairs st)"

function val_loop ::
  "byte list \<Rightarrow> nat \<Rightarrow> nat \<Rightarrow> nat \<Rightarrow> nat \<Rightarrow> val_state \<Rightarrow> error + val_end" where
  "val_loop fileBuffer startOffset remainingSize off_literals off_pairs st =
     (case val_iter fileBuffer startOffset remainingSize off_literals off_pairs st of
        VContinue st' \<Rightarrow> val_loop fileBuffer startOffset remainingSize off_literals off_pairs st'
      | VBreak s \<Rightarrow> Inr (Broke s)
      | VReturn r \<Rightarrow> Inr (Returned r)
      | VFault \<Rightarrow> Inl OutOfBounds)"
  by pat_completeness auto
termination
proof (relation "measure (\<lambda>(fileBuffer, startOffset, remainingSize, off_literals, off_pairs, st).
                   2 ^ 32 * (off_literals - flags_pos st) + unat (mask_w st))")
  show "wf (measure (\<lambda>(fileBuffer, startOffset, remainingSize, off_literals, off_pairs, st).
              2 ^ 32 * (off_literals - flags_pos st) + unat (mask_w st)))"
    by simp
next
  fix fileBuffer :: "byte list" and startOffset remainingSize off_literals off_pairs :: nat
    and st st' :: val_state
  assume step:
    "val_iter fileBuffer startOffset remainingSize off_literals off_pairs st = VContinue st'"
  have frame_pos: "flags_pos (val_copy offset i len s) = flags_pos s" for offset i len s
    by (induction offset i len s rule: val_copy.induct)
       (subst val_copy.simps, simp add: Let_def)
  have frame_mask: "mask_w (val_copy offset i len s) = mask_w s" for offset i len s
    by (induction offset i len s rule: val_copy.induct)
       (subst val_copy.simps, simp add: Let_def)
  have lit: "flags_pos s' = flags_pos s \<and> mask_w s' = mask_w s"
    if "val_literal fileBuffer startOffset off_pairs s = VContinue s'" for s s'
    using that by (auto simp: val_literal_def split: if_splits option.splits)
  have pair: "flags_pos s' = flags_pos s \<and> mask_w s' = mask_w s"
    if "val_pair fileBuffer startOffset remainingSize s = VContinue s'" for s s'
    using that
    by (auto simp: val_pair_def Let_def frame_pos frame_mask split: if_splits option.splits)
  have bit: "flags_pos s' = flags_pos s \<and> mask_w s' = drop_bit 1 (mask_w s)"
    if "val_bit fileBuffer startOffset remainingSize off_pairs s = VContinue s'" for s s'
  proof (cases "flag_word s AND mask_w s \<noteq> 0")
    case True
    with that have "val_literal fileBuffer startOffset off_pairs
                      (s\<lparr>mask_w := drop_bit 1 (mask_w s)\<rparr>) = VContinue s'"
      by (simp add: val_bit_def)
    from lit [OF this] show ?thesis by simp
  next
    case False
    with that have "val_pair fileBuffer startOffset remainingSize
                      (s\<lparr>mask_w := drop_bit 1 (mask_w s)\<rparr>) = VContinue s'"
      by (simp add: val_bit_def)
    from pair [OF this] show ?thesis by simp
  qed
  have shrink: "unat (drop_bit 1 m) < unat m" if "m \<noteq> 0" for m :: "32 word"
  proof -
    have "unat m \<noteq> 0" using that by (simp add: unat_eq_0)
    then show ?thesis by (simp add: unat_drop_bit_eq drop_bit_Suc unat_div)
  qed
  have top: "unat (drop_bit 1 (0x80000000 :: 32 word)) = 1073741824"
    by (simp add: unat_drop_bit_eq drop_bit_Suc)
  show "((fileBuffer, startOffset, remainingSize, off_literals, off_pairs, st'),
         (fileBuffer, startOffset, remainingSize, off_literals, off_pairs, st))
          \<in> measure (\<lambda>(fileBuffer, startOffset, remainingSize, off_literals, off_pairs, st).
               2 ^ 32 * (off_literals - flags_pos st) + unat (mask_w st))"
  proof (cases "mask_w st = 0")
    case True
    with step have le: "flags_pos st + 4 \<le> off_literals"
      by (simp add: val_iter_def split: if_splits)
    from step True le obtain w where
      "val_bit fileBuffer startOffset remainingSize off_pairs
         (st\<lparr>mask_w := 0x80000000, flag_word := w, flags_pos := flags_pos st + 4\<rparr>)
       = VContinue st'"
      by (simp add: val_iter_def split: option.splits)
    from bit [OF this] have "flags_pos st' = flags_pos st + 4"
      and "unat (mask_w st') = 1073741824"
      by (simp_all add: top)
    with le True show ?thesis by simp
  next
    case False
    with step have "val_bit fileBuffer startOffset remainingSize off_pairs st = VContinue st'"
      by (simp add: val_iter_def)
    from bit [OF this] shrink [OF False] show ?thesis by simp
  qed
qed

declare val_loop.simps [simp del]

definition val_init :: "nat \<Rightarrow> nat \<Rightarrow> val_state" where
  "val_init off_literals off_pairs =
     \<lparr>flags_pos = 8, lit_pos = off_literals, pair_pos = off_pairs,
      dict_buf = replicate 4096 0, dict_index = 1,
      flag_word = 0, mask_w = 0, decompressedSize_cnt = 0\<rparr>"

definition validateAndGetConsumedSize ::
  "byte list \<Rightarrow> nat \<Rightarrow> error + DecompressValidationResult" where
  "validateAndGetConsumedSize fileBuffer startOffset =
     (if size_add startOffset 12 > length fileBuffer then
        Inr \<lparr>success = False, consumedBytes = 0, decompressedSize = 0\<rparr>
      else
        (let remainingSize = size_sub (length fileBuffer) startOffset in
         case rd_u32 fileBuffer startOffset of
           None \<Rightarrow> Inl OutOfBounds
         | Some w0 \<Rightarrow>
             (case rd_u32 fileBuffer (startOffset + 4) of
                None \<Rightarrow> Inl OutOfBounds
              | Some w1 \<Rightarrow>
                  (let off_literals = unat w0; off_pairs = unat w1 in
                   if \<not> (8 \<le> off_literals \<and> off_literals \<le> remainingSize \<and>
                          8 \<le> off_pairs \<and> off_pairs \<le> remainingSize \<and>
                          off_pairs \<ge> off_literals)
                   then Inr \<lparr>success = False, consumedBytes = 0, decompressedSize = 0\<rparr>
                   else
                     case val_loop fileBuffer startOffset remainingSize off_literals off_pairs
                            (val_init off_literals off_pairs) of
                       Inl e \<Rightarrow> Inl e
                     | Inr (Returned r) \<Rightarrow> Inr r
                     | Inr (Broke s) \<Rightarrow>
                         Inr \<lparr>success = False, consumedBytes = 0, decompressedSize = 0\<rparr>))))"

section \<open>The scanner: scanContainer\<close>

record ScanResult =
  offset :: nat
  consumedSize :: nat
  decompressedSize_blk :: nat

text \<open>\<^verbatim>\<open>ScanResult::operator<\<close>.\<close>

definition ScanResult_less :: "ScanResult \<Rightarrow> ScanResult \<Rightarrow> bool" where
  "ScanResult_less a b =
     (if offset a \<noteq> offset b then offset a < offset b
      else consumedSize a > consumedSize b)"

text \<open>
  The messages that \<^verbatim>\<open>scanContainer\<close> writes to \<^verbatim>\<open>std::cout\<close> are left out.

  Step 1, the loop \<^verbatim>\<open>for (size_t off = 0; off <= n - 12; off += 4)\<close>. The subtractions
  \<^verbatim>\<open>n - 12\<close> and \<^verbatim>\<open>n - off\<close> are \<^verbatim>\<open>size_t\<close> subtractions. The increment is reached only
  after both header words were read inside the vector, that is with
  \<open>off + 8 \<le> n\<close>, so it does not wrap.
\<close>

function scan_candidates :: "byte list \<Rightarrow> nat \<Rightarrow> ScanResult list \<Rightarrow> error + ScanResult list" where
  "scan_candidates fileBuffer off results =
     (let n = length fileBuffer in
      if off \<le> size_sub n 12 then
        (case rd_u32 fileBuffer off of
           None \<Rightarrow> Inl OutOfBounds
         | Some ol \<Rightarrow>
             (case rd_u32 fileBuffer (off + 4) of
                None \<Rightarrow> Inl OutOfBounds
              | Some orf \<Rightarrow>
                  (let rem = size_sub n off in
                   if 8 \<le> unat ol \<and> unat ol \<le> rem \<and> 8 \<le> unat orf \<and> unat orf \<le> rem
                      \<and> unat orf \<ge> unat ol
                   then
                     (case validateAndGetConsumedSize fileBuffer off of
                        Inl e \<Rightarrow> Inl e
                      | Inr res \<Rightarrow>
                          scan_candidates fileBuffer (off + 4)
                            (if success res \<and> consumedBytes res > 0
                             then results @ [\<lparr>offset = off, consumedSize = consumedBytes res,
                                              decompressedSize_blk = decompressedSize res\<rparr>]
                             else results))
                   else scan_candidates fileBuffer (off + 4) results)))
      else Inr results)"
  by pat_completeness auto
termination
  by (relation "measure (\<lambda>(fileBuffer, off, results). length fileBuffer - off)")
     (auto simp: rd_u32_def split: if_splits)

declare scan_candidates.simps [simp del]

text \<open>
  Step 2 starts with \<^verbatim>\<open>std::sort(results.begin(), results.end())\<close>, which orders by
  \<^verbatim>\<open>operator<\<close>. It is modelled by insertion sort. \<^verbatim>\<open>std::sort\<close> leaves the order of
  equivalent elements open; the candidates of step 1 have pairwise different offsets, so
  there are none.
\<close>

fun insert_sorted :: "ScanResult \<Rightarrow> ScanResult list \<Rightarrow> ScanResult list" where
  "insert_sorted r [] = [r]"
| "insert_sorted r (x # xs) =
     (if ScanResult_less x r then x # insert_sorted r xs else r # x # xs)"

fun sort_results :: "ScanResult list \<Rightarrow> ScanResult list" where
  "sort_results [] = []"
| "sort_results (r # rs) = insert_sorted r (sort_results rs)"

text \<open>The inner loop over \<^verbatim>\<open>keptRanges\<close>, with its \<^verbatim>\<open>break\<close> at the first overlap.\<close>

fun overlaps_kept :: "nat \<Rightarrow> nat \<Rightarrow> (nat \<times> nat) list \<Rightarrow> bool" where
  "overlaps_kept off end_r [] = False"
| "overlaps_kept off end_r (k # ks) =
     (if \<not> (end_r \<le> fst k \<or> off \<ge> snd k) then True else overlaps_kept off end_r ks)"

text \<open>The loop \<^verbatim>\<open>for (const auto& r : results)\<close> of the deduplication.\<close>

fun dedup :: "ScanResult list \<Rightarrow> ScanResult list \<Rightarrow> (nat \<times> nat) list \<Rightarrow> ScanResult list" where
  "dedup [] finalResults keptRanges = finalResults"
| "dedup (r # rs) finalResults keptRanges =
     (let off = offset r;
          end_r = size_add (offset r) (consumedSize r);
          overlaps = overlaps_kept off end_r keptRanges
      in if \<not> overlaps
         then dedup rs (finalResults @ [r]) (keptRanges @ [(off, end_r)])
         else dedup rs finalResults keptRanges)"

definition scanContainer :: "byte list \<Rightarrow> error + ScanResult list" where
  "scanContainer fileBuffer =
     (case scan_candidates fileBuffer 0 [] of
        Inl e \<Rightarrow> Inl e
      | Inr results \<Rightarrow> Inr (dedup (sort_results results) [] []))"

section \<open>Notions used to state the properties\<close>

text \<open>
  The validator and the decoder run the same loop; \<open>sim\<close> relates a validator state
  to a decoder state with the same cursors, dictionary and flag register, whose output
  has as many bytes as the validator has counted.
\<close>

definition sim :: "val_state \<Rightarrow> dec_state \<Rightarrow> bool" where
  "sim v d \<longleftrightarrow>
     flags_pos v = flags_pos d \<and> lit_pos v = lit_pos d \<and> pair_pos v = pair_pos d \<and>
     dict_buf v = dict_buf d \<and> dict_index v = dict_index d \<and>
     flag_word v = flag_word d \<and> mask_w v = mask_w d \<and>
     decompressedSize_cnt v = length (out d)"

text \<open>
  The flag bit that the iteration starting in a state tests: the top bit of the next flag
  word when the mask is exhausted (\<open>None\<close> when no flag word is left before
  \<^verbatim>\<open>off_literals\<close>, or when its read fails), the bit under the mask otherwise. \<open>base\<close>
  is the index of the block's first byte in \<open>buf\<close>.
\<close>

definition next_bit :: "byte list \<Rightarrow> nat \<Rightarrow> nat \<Rightarrow> 'a lz_state_scheme \<Rightarrow> bool option" where
  "next_bit buf base off_literals st =
     (if mask_w st = 0 then
        (if flags_pos st + 4 > off_literals then None
         else map_option (\<lambda>w. w AND 0x80000000 \<noteq> 0) (rd_u32 buf (base + flags_pos st)))
      else Some (flag_word st AND mask_w st \<noteq> 0))"

definition flags_exhausted :: "nat \<Rightarrow> 'a lz_state_scheme \<Rightarrow> bool" where
  "flags_exhausted off_literals st \<longleftrightarrow> mask_w st = 0 \<and> flags_pos st + 4 > off_literals"

text \<open>
  The two header words of the block that starts at index \<open>base\<close> of \<open>buf\<close>, as the
  functions read them (0 when the read fails).
\<close>

definition block_off_literals :: "byte list \<Rightarrow> nat \<Rightarrow> nat" where
  "block_off_literals buf base = (case rd_u32 buf base of Some w \<Rightarrow> unat w | None \<Rightarrow> 0)"

definition block_off_pairs :: "byte list \<Rightarrow> nat \<Rightarrow> nat" where
  "block_off_pairs buf base = (case rd_u32 buf (base + 4) of Some w \<Rightarrow> unat w | None \<Rightarrow> 0)"

text \<open>
  The states a loop passes through: \<open>dec_reach\<close> (\<open>val_reach\<close>) holds of the state
  the loop is started in and of every state that an iteration hands to the next one.
\<close>

inductive dec_reach :: "byte list \<Rightarrow> nat \<Rightarrow> nat \<Rightarrow> dec_state \<Rightarrow> dec_state \<Rightarrow> bool"
  for block off_literals off_pairs st
  where
    dec_reach_start: "dec_reach block off_literals off_pairs st st"
  | dec_reach_step:
      "dec_reach block off_literals off_pairs st s \<Longrightarrow>
       dec_iter block off_literals off_pairs s = Continue s' \<Longrightarrow>
       dec_reach block off_literals off_pairs st s'"

code_pred dec_reach .

inductive val_reach ::
  "byte list \<Rightarrow> nat \<Rightarrow> nat \<Rightarrow> nat \<Rightarrow> nat \<Rightarrow> val_state \<Rightarrow> val_state \<Rightarrow> bool"
  for fileBuffer startOffset remainingSize off_literals off_pairs st
  where
    val_reach_start:
      "val_reach fileBuffer startOffset remainingSize off_literals off_pairs st st"
  | val_reach_step:
      "val_reach fileBuffer startOffset remainingSize off_literals off_pairs st s \<Longrightarrow>
       val_iter fileBuffer startOffset remainingSize off_literals off_pairs s = VContinue s' \<Longrightarrow>
       val_reach fileBuffer startOffset remainingSize off_literals off_pairs st s'"

code_pred val_reach .

text \<open>
  \<open>dec_ready\<close> and \<open>val_ready\<close> say that the checks before the loop pass, so that the
  loop is entered; \<open>dec_passes\<close> and \<open>val_passes\<close> say that the run of the function on
  a block (on a buffer and a start offset) passes through a state.
\<close>

definition dec_ready :: "byte list \<Rightarrow> bool" where
  "dec_ready block \<longleftrightarrow>
     12 \<le> length block \<and> block_off_literals block 0 < length block \<and>
     block_off_pairs block 0 < length block \<and> 8 \<le> block_off_literals block 0"

definition dec_passes :: "byte list \<Rightarrow> dec_state \<Rightarrow> bool" where
  "dec_passes block s \<longleftrightarrow>
     dec_ready block \<and>
     dec_reach block (block_off_literals block 0) (block_off_pairs block 0)
       (dec_init (block_off_literals block 0) (block_off_pairs block 0)) s"

definition val_ready :: "byte list \<Rightarrow> nat \<Rightarrow> bool" where
  "val_ready fileBuffer startOffset \<longleftrightarrow>
     \<not> size_add startOffset 12 > length fileBuffer \<and>
     rd_u32 fileBuffer startOffset \<noteq> None \<and> rd_u32 fileBuffer (startOffset + 4) \<noteq> None \<and>
     8 \<le> block_off_literals fileBuffer startOffset \<and>
     block_off_literals fileBuffer startOffset \<le> size_sub (length fileBuffer) startOffset \<and>
     8 \<le> block_off_pairs fileBuffer startOffset \<and>
     block_off_pairs fileBuffer startOffset \<le> size_sub (length fileBuffer) startOffset \<and>
     block_off_pairs fileBuffer startOffset \<ge> block_off_literals fileBuffer startOffset"

definition val_passes :: "byte list \<Rightarrow> nat \<Rightarrow> val_state \<Rightarrow> bool" where
  "val_passes fileBuffer startOffset s \<longleftrightarrow>
     val_ready fileBuffer startOffset \<and>
     val_reach fileBuffer startOffset (size_sub (length fileBuffer) startOffset)
       (block_off_literals fileBuffer startOffset) (block_off_pairs fileBuffer startOffset)
       (val_init (block_off_literals fileBuffer startOffset)
                 (block_off_pairs fileBuffer startOffset)) s"

text \<open>
  What the iteration that starts in a state meets: a literal-flagged bit with the literal
  cursor at or beyond \<^verbatim>\<open>off_pairs\<close>; a reference-flagged bit with fewer than two bytes
  before \<open>bound\<close> (the block length for the decoder, \<^verbatim>\<open>remainingSize\<close> for the
  validator); a reference-flagged bit whose pair code has dictionary offset 0.
\<close>

definition literals_exhausted ::
  "byte list \<Rightarrow> nat \<Rightarrow> nat \<Rightarrow> nat \<Rightarrow> 'a lz_state_scheme \<Rightarrow> bool" where
  "literals_exhausted buf base off_literals off_pairs st \<longleftrightarrow>
     next_bit buf base off_literals st = Some True \<and> lit_pos st \<ge> off_pairs"

definition pairs_exhausted ::
  "byte list \<Rightarrow> nat \<Rightarrow> nat \<Rightarrow> nat \<Rightarrow> 'a lz_state_scheme \<Rightarrow> bool" where
  "pairs_exhausted buf base bound off_literals st \<longleftrightarrow>
     next_bit buf base off_literals st = Some False \<and> pair_pos st + 2 > bound"

definition at_terminator ::
  "byte list \<Rightarrow> nat \<Rightarrow> nat \<Rightarrow> nat \<Rightarrow> 'a lz_state_scheme \<Rightarrow> bool" where
  "at_terminator buf base bound off_literals st \<longleftrightarrow>
     next_bit buf base off_literals st = Some False \<and> pair_pos st + 2 \<le> bound \<and>
     (case rd_u16 buf (base + pair_pos st) of Some v \<Rightarrow> drop_bit 4 v = 0 | None \<Rightarrow> False)"

text \<open>
  The sliding dictionary as the specification describes it, to compare the decoder with:
  a pair of a 4096-byte buffer and a write cursor. \<open>spec_dict_write\<close> writes one
  emitted byte at the cursor and advances the cursor modulo 4096;
  \<open>spec_dict_after\<close> is the dictionary after the bytes of an output were emitted one
  after the other into the fresh dictionary (all zero, cursor 1);
  \<open>spec_copy\<close> is a back-reference: for \<open>i\<close> from 0 up to the length, the byte at
  index \<open>(offset + i) mod 4096\<close> of the dictionary as it stands is read, appended to the
  output and written back before the next byte is read.
\<close>

definition spec_dict_write :: "byte \<Rightarrow> byte list \<times> nat \<Rightarrow> byte list \<times> nat" where
  "spec_dict_write b dc = ((fst dc)[snd dc := b], (snd dc + 1) mod 4096)"

definition spec_dict_after :: "byte list \<Rightarrow> byte list \<times> nat" where
  "spec_dict_after bytes = fold spec_dict_write bytes (replicate 4096 0, 1)"

definition spec_copy_step ::
  "nat \<Rightarrow> nat \<Rightarrow> (byte list \<times> nat) \<times> byte list \<Rightarrow> (byte list \<times> nat) \<times> byte list" where
  "spec_copy_step ofs i x =
     (let b = fst (fst x) ! ((ofs + i) mod 4096)
      in (spec_dict_write b (fst x), snd x @ [b]))"

definition spec_copy ::
  "nat \<Rightarrow> nat \<Rightarrow> (byte list \<times> nat) \<times> byte list \<Rightarrow> (byte list \<times> nat) \<times> byte list" where
  "spec_copy ofs len x = fold (spec_copy_step ofs) [0..<len] x"

text \<open>The dictionary of a decoder state is the one its output so far gives.\<close>

definition dict_follows_output :: "dec_state \<Rightarrow> bool" where
  "dict_follows_output s \<longleftrightarrow>
     length (dict_buf s) = 4096 \<and> dict_index s < 4096 \<and>
     (dict_buf s, dict_index s) = spec_dict_after (out s)"

text \<open>
  The byte interval \<open>[offset, offset + consumedSize)\<close> of a descriptor, and what it
  means for a descriptor to denote a slice of the buffer that holds a whole block.
\<close>

definition block_interval :: "ScanResult \<Rightarrow> nat set" where
  "block_interval r = {offset r ..< offset r + consumedSize r}"

definition in_bounds :: "byte list \<Rightarrow> ScanResult \<Rightarrow> bool" where
  "in_bounds fileBuffer r \<longleftrightarrow>
     offset r + consumedSize r \<le> length fileBuffer \<and> 14 \<le> consumedSize r"

text \<open>
  The number of flag bits a loop can still process from a state: the bits left under
  the mask and 32 for every flag word left before \<^verbatim>\<open>off_literals\<close>.
\<close>

function bits_left :: "32 word \<Rightarrow> nat" where
  "bits_left m = (if m = 0 then 0 else Suc (bits_left (drop_bit 1 m)))"
  by pat_completeness auto
termination
proof (relation "measure unat")
  show "wf (measure (unat :: 32 word \<Rightarrow> nat))" by simp
next
  fix m :: "32 word"
  assume "m \<noteq> 0"
  then have "unat m \<noteq> 0" by (simp add: unat_eq_0)
  then have "unat (drop_bit 1 m) < unat m"
    by (simp add: unat_drop_bit_eq drop_bit_Suc unat_div)
  then show "(drop_bit 1 m, m) \<in> measure unat" by simp
qed

declare bits_left.simps [simp del]

definition flag_budget :: "nat \<Rightarrow> 'a lz_state_scheme \<Rightarrow> nat" where
  "flag_budget off_literals st =
     32 * ((off_literals - flags_pos st) div 4) + bits_left (mask_w st)"

section \<open>Evaluation on concrete buffers\<close>

lemmas read_eval = rd_u8_def rd_u16_def rd_u32_def size_add_def size_sub_def Let_def

lemmas dec_eval =
  decompressLZSSBlock_def dec_init_def dec_loop.simps dec_iter_def dec_bit_def
  dec_literal_def dec_pair_def dec_copy.simps

lemmas val_eval =
  validateAndGetConsumedSize_def val_init_def val_loop.simps val_iter_def val_bit_def
  val_literal_def val_pair_def val_copy.simps

lemmas scan_eval = scanContainer_def scan_candidates.simps ScanResult_less_def

section \<open>Reading from a slice of the buffer\<close>

lemma length_slice: "so + c \<le> length fb \<Longrightarrow> length (take c (drop so fb)) = c"
  by simp

lemma nth_slice: "so + c \<le> length fb \<Longrightarrow> p < c \<Longrightarrow> take c (drop so fb) ! p = fb ! (so + p)"
  by simp

lemma rd_u8_slice:
  "so + c \<le> length fb \<Longrightarrow> p < c \<Longrightarrow> rd_u8 (take c (drop so fb)) p = rd_u8 fb (so + p)"
  by (simp add: rd_u8_def)

lemma rd_u16_slice:
  "so + c \<le> length fb \<Longrightarrow> p + 2 \<le> c \<Longrightarrow> rd_u16 (take c (drop so fb)) p = rd_u16 fb (so + p)"
  by (simp add: rd_u16_def add.assoc)

lemma rd_u32_slice:
  "so + c \<le> length fb \<Longrightarrow> p + 4 \<le> c \<Longrightarrow> rd_u32 (take c (drop so fb)) p = rd_u32 fb (so + p)"
  by (simp add: rd_u32_def add.assoc)

lemma sim_copy: "sim v d \<Longrightarrow> sim (val_copy ofs i len v) (dec_copy ofs i len d)"
proof (induction ofs i len v arbitrary: d rule: val_copy.induct)
  case (1 ofs i len v)
  show ?case
  proof (cases "i < len")
    case True
    let ?b = "dict_buf v ! ((ofs + i) mod 4096)"
    let ?v = "v\<lparr>decompressedSize_cnt := decompressedSize_cnt v + 1,
                dict_buf := (dict_buf v)[dict_index v := ?b],
                dict_index := (dict_index v + 1) mod 4096\<rparr>"
    let ?d = "d\<lparr>out := out d @ [?b],
                dict_buf := (dict_buf d)[dict_index d := ?b],
                dict_index := (dict_index d + 1) mod 4096\<rparr>"
    from "1.prems" have s: "sim ?v ?d" by (simp add: sim_def)
    from "1.prems" have eq: "dict_buf d ! ((ofs + i) mod 4096) = ?b" by (simp add: sim_def)
    have "sim (val_copy ofs (i + 1) len ?v) (dec_copy ofs (i + 1) len ?d)"
      using "1.IH" [OF True refl s] .
    moreover have "val_copy ofs i len v = val_copy ofs (i + 1) len ?v"
      using True by (subst val_copy.simps) (simp add: Let_def)
    moreover have "dec_copy ofs i len d = dec_copy ofs (i + 1) len ?d"
      using True eq by (subst dec_copy.simps) (simp add: Let_def)
    ultimately show ?thesis by simp
  next
    case False
    then have "val_copy ofs i len v = v" "dec_copy ofs i len d = d"
      by (simp_all add: val_copy.simps [of ofs i len v] dec_copy.simps [of ofs i len d])
    with "1.prems" show ?thesis by simp
  qed
qed

section \<open>One iteration of the validator\<close>

lemma val_copy_pair_pos [simp]: "pair_pos (val_copy ofs i len s) = pair_pos s"
  by (induction ofs i len s rule: val_copy.induct) (subst val_copy.simps, simp add: Let_def)

lemma val_copy_lit_pos [simp]: "lit_pos (val_copy ofs i len s) = lit_pos s"
  by (induction ofs i len s rule: val_copy.induct) (subst val_copy.simps, simp add: Let_def)

lemma val_copy_flags_pos [simp]: "flags_pos (val_copy ofs i len s) = flags_pos s"
  by (induction ofs i len s rule: val_copy.induct) (subst val_copy.simps, simp add: Let_def)

lemma val_copy_mask_w [simp]: "mask_w (val_copy ofs i len s) = mask_w s"
  by (induction ofs i len s rule: val_copy.induct) (subst val_copy.simps, simp add: Let_def)

lemma val_copy_flag_word [simp]: "flag_word (val_copy ofs i len s) = flag_word s"
  by (induction ofs i len s rule: val_copy.induct) (subst val_copy.simps, simp add: Let_def)

lemma val_iter_break_flags:
  "val_iter fb so rem ol op st = VBreak FlagStream \<longleftrightarrow> flags_exhausted ol st"
  by (auto simp: val_iter_def val_bit_def val_literal_def val_pair_def Let_def flags_exhausted_def
           split: if_splits option.splits)

lemma val_iter_break_literals:
  "val_iter fb so rem ol op st = VBreak LiteralStream \<longleftrightarrow>
     next_bit fb so ol st = Some True \<and> lit_pos st \<ge> op"
  by (auto simp: val_iter_def val_bit_def val_literal_def val_pair_def Let_def next_bit_def
           split: if_splits option.splits)

lemma val_iter_break_pairs:
  "val_iter fb so rem ol op st = VBreak PairStream \<longleftrightarrow>
     next_bit fb so ol st = Some False \<and> pair_pos st + 2 > rem"
  by (auto simp: val_iter_def val_bit_def val_literal_def val_pair_def Let_def next_bit_def
           split: if_splits option.splits)

lemma val_iter_return:
  "val_iter fb so rem ol op st = VReturn r \<longleftrightarrow>
     next_bit fb so ol st = Some False \<and> pair_pos st + 2 \<le> rem \<and>
     (\<exists>v. rd_u16 fb (so + pair_pos st) = Some v \<and> drop_bit 4 v = 0) \<and>
     r = \<lparr>success = True, consumedBytes = pair_pos st + 2,
          decompressedSize = decompressedSize_cnt st\<rparr>"
  by (auto simp: val_iter_def val_bit_def val_literal_def val_pair_def Let_def next_bit_def unat_eq_0
           split: if_splits option.splits)

lemma val_iter_continue_pair_pos:
  "val_iter fb so rem ol op st = VContinue st' \<Longrightarrow> pair_pos st \<le> pair_pos st'"
  by (auto simp: val_iter_def val_bit_def val_literal_def val_pair_def Let_def
           split: if_splits option.splits)

section \<open>Successful runs of the validator\<close>

lemma rd_u16_in_bounds: "rd_u16 buf i = Some v \<Longrightarrow> i + 2 \<le> length buf"
  by (simp add: rd_u16_def split: if_splits)

lemma rd_u32_in_bounds: "rd_u32 buf i = Some v \<Longrightarrow> i + 4 \<le> length buf"
  by (simp add: rd_u32_def split: if_splits)

lemma val_loop_returned:
  "val_loop fb so rem ol op st = Inr (Returned r) \<Longrightarrow>
     success r \<and> pair_pos st + 2 \<le> consumedBytes r \<and> so + consumedBytes r \<le> length fb
     \<and> consumedBytes r \<le> rem"
proof (induction fb so rem ol op st rule: val_loop.induct)
  case (1 fb so rem ol op st)
  show ?case
  proof (cases "val_iter fb so rem ol op st")
    case (VContinue st')
    with "1.prems" have "val_loop fb so rem ol op st' = Inr (Returned r)"
      by (simp add: val_loop.simps [of fb so rem ol op st])
    from "1.IH" [OF VContinue this] val_iter_continue_pair_pos [OF VContinue]
    show ?thesis by simp
  next
    case (VBreak s)
    with "1.prems" show ?thesis by (simp add: val_loop.simps [of fb so rem ol op st])
  next
    case (VReturn r')
    with "1.prems" have eq: "r' = r" by (simp add: val_loop.simps [of fb so rem ol op st])
    from VReturn [unfolded eq val_iter_return] show ?thesis
      by (auto dest: rd_u16_in_bounds)
  next
    case VFault
    with "1.prems" show ?thesis by (simp add: val_loop.simps [of fb so rem ol op st])
  qed
qed

lemma val_loop_init_flag_word:
  assumes "val_loop fb so rem ol op (val_init ol op) = Inr (Returned r)"
  shows "12 \<le> ol"
proof (rule ccontr)
  assume "\<not> 12 \<le> ol"
  then have "flags_exhausted ol (val_init ol op)"
    by (simp add: flags_exhausted_def val_init_def)
  then have "val_iter fb so rem ol op (val_init ol op) = VBreak FlagStream"
    by (simp add: val_iter_break_flags)
  with assms show False
    by (simp add: val_loop.simps [of fb so rem ol op "val_init ol op"])
qed

text \<open>What a successful validation went through.\<close>

lemma validate_success_run:
  assumes "validateAndGetConsumedSize fb so = Inr res" and "success res"
  obtains w0 w1 rem where
    "rd_u32 fb so = Some w0" "rd_u32 fb (so + 4) = Some w1"
    "8 \<le> unat w0" "unat w0 \<le> unat w1"
    "val_loop fb so rem (unat w0) (unat w1) (val_init (unat w0) (unat w1)) = Inr (Returned res)"
  using assms
  by (auto simp: validateAndGetConsumedSize_def Let_def
           split: if_splits option.splits sum.splits val_end.splits)

lemma validate_success_bounds:
  assumes "validateAndGetConsumedSize fileBuffer startOffset = Inr res" and "success res"
  shows "startOffset + consumedBytes res \<le> length fileBuffer \<and> 14 \<le> consumedBytes res"
proof -
  from assms obtain w0 w1 :: "32 word" and rem where
    le: "unat w0 \<le> unat w1" and
    run: "val_loop fileBuffer startOffset rem (unat w0) (unat w1) (val_init (unat w0) (unat w1))
            = Inr (Returned res)"
    by (rule validate_success_run) blast
  from val_loop_returned [OF run] have
    "pair_pos (val_init (unat w0) (unat w1)) + 2 \<le> consumedBytes res"
    "startOffset + consumedBytes res \<le> length fileBuffer" by simp_all
  moreover from val_loop_init_flag_word [OF run] have "12 \<le> unat w0" .
  ultimately show ?thesis using le by (simp add: val_init_def)
qed

section \<open>The decoder follows the validator\<close>

lemma sim_literal:
  assumes "sim v d" "so + c \<le> length fb" "op \<le> c"
    and "val_literal fb so op v = VContinue v'"
  shows "\<exists>d'. dec_literal (take c (drop so fb)) op d = Continue d' \<and> sim v' d'"
proof -
  from assms(4) obtain b where lt: "lit_pos v < op"
    and b: "rd_u8 fb (so + lit_pos v) = Some b"
    and v': "v' = v\<lparr>lit_pos := lit_pos v + 1,
                     decompressedSize_cnt := decompressedSize_cnt v + 1,
                     dict_buf := (dict_buf v)[dict_index v := b],
                     dict_index := (dict_index v + 1) mod 4096\<rparr>"
    by (auto simp: val_literal_def split: if_splits option.splits)
  from assms(1) have eq: "lit_pos d = lit_pos v" by (simp add: sim_def)
  from lt assms(2,3) have "rd_u8 (take c (drop so fb)) (lit_pos v) = rd_u8 fb (so + lit_pos v)"
    by (simp add: rd_u8_slice)
  with b lt eq have "dec_literal (take c (drop so fb)) op d
      = Continue (d\<lparr>lit_pos := lit_pos d + 1, out := out d @ [b],
                     dict_buf := (dict_buf d)[dict_index d := b],
                     dict_index := (dict_index d + 1) mod 4096\<rparr>)"
    by (simp add: dec_literal_def)
  moreover from assms(1) have "sim v' (d\<lparr>lit_pos := lit_pos d + 1, out := out d @ [b],
                     dict_buf := (dict_buf d)[dict_index d := b],
                     dict_index := (dict_index d + 1) mod 4096\<rparr>)"
    by (simp add: sim_def v')
  ultimately show ?thesis by blast
qed

lemma sim_pair_continue:
  assumes "sim v d" "so + c \<le> length fb" "pair_pos v + 2 \<le> c"
    and "val_pair fb so rem v = VContinue v'"
  shows "\<exists>d'. dec_pair (take c (drop so fb)) d = Continue d' \<and> sim v' d'"
proof -
  from assms(1) have eq: "pair_pos d = pair_pos v" by (simp add: sim_def)
  with assms(2,3) have rd: "rd_u16 (take c (drop so fb)) (pair_pos d) = rd_u16 fb (so + pair_pos v)"
    by (simp add: rd_u16_slice)
  from assms(2,3) eq have len: "\<not> pair_pos d + 2 > length (take c (drop so fb))" by simp
  from assms(4) obtain pv where
    pv: "rd_u16 fb (so + pair_pos v) = Some pv" "unat (drop_bit 4 pv) \<noteq> 0"
    and v': "v' = val_copy (unat (drop_bit 4 pv)) 0 (unat (pv AND 0xF) + 2)
                    (v\<lparr>pair_pos := pair_pos v + 2\<rparr>)"
    by (auto simp: val_pair_def Let_def split: if_splits option.splits)
  from assms(1) have "sim (v\<lparr>pair_pos := pair_pos v + 2\<rparr>) (d\<lparr>pair_pos := pair_pos d + 2\<rparr>)"
    by (simp add: sim_def)
  from sim_copy [OF this] have
    "sim v' (dec_copy (unat (drop_bit 4 pv)) 0 (unat (pv AND 0xF) + 2)
               (d\<lparr>pair_pos := pair_pos d + 2\<rparr>))"
    by (simp add: v')
  moreover have "dec_pair (take c (drop so fb)) d
                   = Continue (dec_copy (unat (drop_bit 4 pv)) 0 (unat (pv AND 0xF) + 2)
                                 (d\<lparr>pair_pos := pair_pos d + 2\<rparr>))"
    using len pv by (simp add: dec_pair_def rd Let_def del: length_take)
  ultimately show ?thesis by blast
qed

lemma sim_pair_return:
  assumes "sim v d" "so + c \<le> length fb" "pair_pos v + 2 \<le> c"
    and "val_pair fb so rem v = VReturn r"
  shows "dec_pair (take c (drop so fb)) d = Break (out d) False
         \<and> decompressedSize r = length (out d)"
proof -
  from assms(1) have eq: "pair_pos d = pair_pos v" by (simp add: sim_def)
  with assms(2,3) have rd: "rd_u16 (take c (drop so fb)) (pair_pos d) = rd_u16 fb (so + pair_pos v)"
    by (simp add: rd_u16_slice)
  from assms(2,3) eq have len: "\<not> pair_pos d + 2 > length (take c (drop so fb))" by simp
  from assms(4) obtain pv where
    pv: "rd_u16 fb (so + pair_pos v) = Some pv" "unat (drop_bit 4 pv) = 0"
    and r: "decompressedSize r = decompressedSize_cnt v"
    by (auto simp: val_pair_def Let_def split: if_splits option.splits)
  have "dec_pair (take c (drop so fb)) d = Break (out d) False"
    using len pv by (simp add: dec_pair_def rd Let_def del: length_take)
  with r assms(1) show ?thesis by (simp add: sim_def)
qed

lemma sim_shift: "sim v d \<Longrightarrow>
  sim (v\<lparr>mask_w := drop_bit 1 (mask_w v)\<rparr>) (d\<lparr>mask_w := drop_bit 1 (mask_w d)\<rparr>)"
  by (simp add: sim_def)

lemma sim_bit_continue:
  assumes "sim v d" "so + c \<le> length fb" "op \<le> c" "pair_pos v + 2 \<le> c"
    and "val_bit fb so rem op v = VContinue v'"
  shows "\<exists>d'. dec_bit (take c (drop so fb)) op d = Continue d' \<and> sim v' d'"
proof -
  from assms(1) have bits: "flag_word d AND mask_w d = flag_word v AND mask_w v"
    by (simp add: sim_def)
  show ?thesis
  proof (cases "flag_word v AND mask_w v \<noteq> 0")
    case True
    with assms(5) have "val_literal fb so op (v\<lparr>mask_w := drop_bit 1 (mask_w v)\<rparr>) = VContinue v'"
      by (simp add: val_bit_def)
    from sim_literal [OF sim_shift [OF assms(1)] assms(2,3) this] True bits
    show ?thesis by (simp add: dec_bit_def)
  next
    case False
    with assms(5) have "val_pair fb so rem (v\<lparr>mask_w := drop_bit 1 (mask_w v)\<rparr>) = VContinue v'"
      by (simp add: val_bit_def)
    from sim_pair_continue [OF sim_shift [OF assms(1)] assms(2) _ this] assms(4) False bits
    show ?thesis by (simp add: dec_bit_def)
  qed
qed

lemma sim_bit_return:
  assumes "sim v d" "so + c \<le> length fb" "pair_pos v + 2 \<le> c"
    and "val_bit fb so rem op v = VReturn r"
  shows "dec_bit (take c (drop so fb)) op d = Break (out d) False
         \<and> decompressedSize r = length (out d)"
proof -
  from assms(1) have bits: "flag_word d AND mask_w d = flag_word v AND mask_w v"
    by (simp add: sim_def)
  have nolit: "val_literal fb so op s \<noteq> VReturn r" for s
    by (simp add: val_literal_def split: option.splits)
  from assms(4) nolit have False: "\<not> flag_word v AND mask_w v \<noteq> 0"
    and "val_pair fb so rem (v\<lparr>mask_w := drop_bit 1 (mask_w v)\<rparr>) = VReturn r"
    by (auto simp: val_bit_def Let_def split: if_splits)
  from sim_pair_return [OF sim_shift [OF assms(1)] assms(2) _ this(2)] assms(3) False bits
  show ?thesis by (simp add: dec_bit_def)
qed

lemma sim_reload:
  "sim v d \<Longrightarrow>
   sim (v\<lparr>mask_w := 0x80000000, flag_word := w, flags_pos := flags_pos v + 4\<rparr>)
       (d\<lparr>mask_w := 0x80000000, flag_word := w, flags_pos := flags_pos d + 4\<rparr>)"
  by (simp add: sim_def)

text \<open>The state the branch of the iteration starts from, after the reload of the mask.\<close>

lemma val_iter_as_bit:
  assumes "val_iter fb so rem ol op v = x" and "x \<noteq> VBreak FlagStream" and "x \<noteq> VFault"
  shows "(mask_w v \<noteq> 0 \<and> val_bit fb so rem op v = x) \<or>
         (mask_w v = 0 \<and> flags_pos v + 4 \<le> ol \<and>
          (\<exists>w. rd_u32 fb (so + flags_pos v) = Some w \<and>
               val_bit fb so rem op
                 (v\<lparr>mask_w := 0x80000000, flag_word := w, flags_pos := flags_pos v + 4\<rparr>) = x))"
  using assms by (auto simp: val_iter_def split: if_splits option.splits)

lemma sim_iter_continue:
  assumes "sim v d" "so + c \<le> length fb" "ol \<le> op" "op \<le> c" "pair_pos v + 2 \<le> c"
    and "val_iter fb so rem ol op v = VContinue v'"
  shows "\<exists>d'. dec_iter (take c (drop so fb)) ol op d = Continue d' \<and> sim v' d'"
proof -
  from assms(1) have m: "mask_w d = mask_w v" and f: "flags_pos d = flags_pos v"
    by (simp_all add: sim_def)
  from val_iter_as_bit [OF assms(6)] consider
    (plain) "mask_w v \<noteq> 0" "val_bit fb so rem op v = VContinue v'"
  | (reload) w where "mask_w v = 0" "flags_pos v + 4 \<le> ol"
      "rd_u32 fb (so + flags_pos v) = Some w"
      "val_bit fb so rem op
         (v\<lparr>mask_w := 0x80000000, flag_word := w, flags_pos := flags_pos v + 4\<rparr>) = VContinue v'"
    by auto
  then show ?thesis
  proof cases
    case plain
    from sim_bit_continue [OF assms(1,2,4,5) plain(2)] plain(1) m
    show ?thesis by (simp add: dec_iter_def)
  next
    case reload
    from reload(2) assms(3,4) have "flags_pos v + 4 \<le> c" by simp
    with assms(2) reload(3) have "rd_u32 (take c (drop so fb)) (flags_pos v) = Some w"
      by (simp add: rd_u32_slice)
    moreover from sim_bit_continue [OF sim_reload [OF assms(1)] assms(2,4) _ reload(4)] assms(5)
    have "\<exists>d'. dec_bit (take c (drop so fb)) op
                  (d\<lparr>mask_w := 0x80000000, flag_word := w, flags_pos := flags_pos d + 4\<rparr>)
                = Continue d' \<and> sim v' d'"
      by simp
    ultimately show ?thesis using reload(1,2) m f by (simp add: dec_iter_def)
  qed
qed

lemma sim_iter_return:
  assumes "sim v d" "so + c \<le> length fb" "ol \<le> op" "op \<le> c" "pair_pos v + 2 \<le> c"
    and "val_iter fb so rem ol op v = VReturn r"
  shows "dec_iter (take c (drop so fb)) ol op d = Break (out d) False
         \<and> decompressedSize r = length (out d)"
proof -
  from assms(1) have m: "mask_w d = mask_w v" and f: "flags_pos d = flags_pos v"
    by (simp_all add: sim_def)
  from val_iter_as_bit [OF assms(6)] consider
    (plain) "mask_w v \<noteq> 0" "val_bit fb so rem op v = VReturn r"
  | (reload) w where "mask_w v = 0" "flags_pos v + 4 \<le> ol"
      "rd_u32 fb (so + flags_pos v) = Some w"
      "val_bit fb so rem op
         (v\<lparr>mask_w := 0x80000000, flag_word := w, flags_pos := flags_pos v + 4\<rparr>) = VReturn r"
    by auto
  then show ?thesis
  proof cases
    case plain
    from sim_bit_return [OF assms(1,2,5) plain(2)] plain(1) m
    show ?thesis by (simp add: dec_iter_def)
  next
    case reload
    from reload(2) assms(3,4) have "flags_pos v + 4 \<le> c" by simp
    with assms(2) reload(3) have "rd_u32 (take c (drop so fb)) (flags_pos v) = Some w"
      by (simp add: rd_u32_slice)
    moreover from sim_bit_return [OF sim_reload [OF assms(1)] assms(2) _ reload(4)] assms(5)
    have "dec_bit (take c (drop so fb)) op
            (d\<lparr>mask_w := 0x80000000, flag_word := w, flags_pos := flags_pos d + 4\<rparr>)
          = Break (out d) False \<and> decompressedSize r = length (out d)"
      by simp
    ultimately show ?thesis using reload(1,2) m f by (simp add: dec_iter_def)
  qed
qed

lemma sim_loop:
  assumes "val_loop fb so rem ol op v = Inr (Returned r)"
    and "sim v d" "ol \<le> op" "op \<le> pair_pos v"
  shows "\<exists>bytes. dec_loop (take (consumedBytes r) (drop so fb)) ol op d = Inr (bytes, False)
                  \<and> length bytes = decompressedSize r"
  using assms
proof (induction fb so rem ol op v arbitrary: d rule: val_loop.induct)
  case (1 fb so rem ol op v)
  let ?c = "consumedBytes r"
  from val_loop_returned [OF "1.prems"(1)] have
    c: "pair_pos v + 2 \<le> ?c" "so + ?c \<le> length fb" by simp_all
  with "1.prems"(4) have opc: "op \<le> ?c" by simp
  show ?case
  proof (cases "val_iter fb so rem ol op v")
    case (VContinue v')
    with "1.prems"(1) have run: "val_loop fb so rem ol op v' = Inr (Returned r)"
      by (simp add: val_loop.simps [of fb so rem ol op v])
    from sim_iter_continue [OF "1.prems"(2) c(2) "1.prems"(3) opc c(1) VContinue]
    obtain d' where d': "dec_iter (take ?c (drop so fb)) ol op d = Continue d'" "sim v' d'"
      by blast
    from val_iter_continue_pair_pos [OF VContinue] "1.prems"(4) have "op \<le> pair_pos v'" by simp
    from "1.IH" [OF VContinue run d'(2) "1.prems"(3) this] d'(1)
    show ?thesis by (simp add: dec_loop.simps [of _ ol op d])
  next
    case (VBreak s)
    with "1.prems"(1) show ?thesis by (simp add: val_loop.simps [of fb so rem ol op v])
  next
    case (VReturn r')
    with "1.prems"(1) have "r' = r" by (simp add: val_loop.simps [of fb so rem ol op v])
    with VReturn have "val_iter fb so rem ol op v = VReturn r" by simp
    from sim_iter_return [OF "1.prems"(2) c(2) "1.prems"(3) opc c(1) this]
    show ?thesis by (simp add: dec_loop.simps [of _ ol op d])
  next
    case VFault
    with "1.prems"(1) show ?thesis by (simp add: val_loop.simps [of fb so rem ol op v])
  qed
qed

lemma sim_init: "sim (val_init ol op) (dec_init ol op)"
  by (simp add: sim_def val_init_def dec_init_def)

lemma validated_slice_decodes:
  assumes "validateAndGetConsumedSize fileBuffer startOffset = Inr res" and "success res"
  shows "\<exists>bytes. decompressLZSSBlock (take (consumedBytes res) (drop startOffset fileBuffer))
                    = Inr (bytes, False)
                  \<and> length bytes = decompressedSize res"
proof -
  let ?c = "consumedBytes res"
  let ?block = "take ?c (drop startOffset fileBuffer)"
  from assms obtain w0 w1 :: "32 word" and rem where
    w0: "rd_u32 fileBuffer startOffset = Some w0" and
    w1: "rd_u32 fileBuffer (startOffset + 4) = Some w1" and
    low: "8 \<le> unat w0" and le: "unat w0 \<le> unat w1" and
    run: "val_loop fileBuffer startOffset rem (unat w0) (unat w1) (val_init (unat w0) (unat w1))
            = Inr (Returned res)"
    by (rule validate_success_run) blast
  from val_loop_returned [OF run] have
    c: "unat w1 + 2 \<le> ?c" "startOffset + ?c \<le> length fileBuffer"
    by (simp_all add: val_init_def)
  from val_loop_init_flag_word [OF run] have low12: "12 \<le> unat w0" .
  from c le low12 have len: "length ?block = ?c" "12 \<le> ?c" by simp_all
  from c(2) len(2) w0 have h0: "rd_u32 ?block 0 = Some w0"
    using rd_u32_slice [of startOffset ?c fileBuffer 0] by simp
  from c(2) len(2) w1 have h1: "rd_u32 ?block 4 = Some w1"
    using rd_u32_slice [of startOffset ?c fileBuffer 4] by simp
  have "op \<le> pair_pos (val_init ol op)" for ol op by (simp add: val_init_def)
  from sim_loop [OF run sim_init le this] obtain bytes where
    "dec_loop ?block (unat w0) (unat w1) (dec_init (unat w0) (unat w1)) = Inr (bytes, False)"
    "length bytes = decompressedSize res"
    by blast
  with len h0 h1 c le low show ?thesis
    by (simp add: decompressLZSSBlock_def Let_def del: length_take)
qed

text \<open>
  Claim C3: whenever the validator reports success at a start offset, with consumed size
  \<open>c\<close> and decompressed size \<open>d\<close>, the decoder run on the slice of \<open>c\<close> bytes of
  the buffer that starts at that offset does not fail: it returns an output of exactly
  \<open>d\<close> bytes (and writes no warning).
\<close>

theorem validated_block_decodes:
  assumes "validateAndGetConsumedSize fileBuffer startOffset = Inr res" and "success res"
  shows "\<exists>bytes. decompressLZSSBlock (take (consumedBytes res) (drop startOffset fileBuffer))
                    = Inr (bytes, False)
                  \<and> length bytes = decompressedSize res"
  using assms by (rule validated_slice_decodes)

theorem validated_block_decodes_witness:
  "validateAndGetConsumedSize
     [0xFF, 0xFF, 0xFF, 0xFF, 12, 0, 0, 0, 13, 0, 0, 0, 0, 0, 0, 0x80, 0xAB, 0x10, 0, 0, 0, 0x55] 4
     = Inr \<lparr>success = True, consumedBytes = 17, decompressedSize = 3\<rparr>
   \<and> (\<exists>bytes. decompressLZSSBlock [12, 0, 0, 0, 13, 0, 0, 0, 0, 0, 0, 0x80, 0xAB, 0x10, 0, 0, 0]
                   = Inr (bytes, False)
                 \<and> length bytes = 3)"
proof -
  have v: "validateAndGetConsumedSize
     [0xFF, 0xFF, 0xFF, 0xFF, 12, 0, 0, 0, 13, 0, 0, 0, 0, 0, 0, 0x80, 0xAB, 0x10, 0, 0, 0, 0x55] 4
     = Inr \<lparr>success = True, consumedBytes = 17, decompressedSize = 3\<rparr>"
    by (simp add: val_eval read_eval)
  from validated_block_decodes [OF v] v show ?thesis by simp
qed

section \<open>Runs of the decoder\<close>

lemma dec_reach_loop:
  "dec_reach block ol op st s \<Longrightarrow> dec_loop block ol op s = dec_loop block ol op st"
proof (induction rule: dec_reach.induct)
  case dec_reach_start
  show ?case by simp
next
  case (dec_reach_step s s')
  then show ?case by (simp add: dec_loop.simps [of block ol op s])
qed

lemma dec_reach_front:
  assumes "dec_iter block ol op st = Continue st'" and "dec_reach block ol op st' s"
  shows "dec_reach block ol op st s"
  using assms(2)
proof (induction rule: dec_reach.induct)
  case dec_reach_start
  from dec_reach.dec_reach_step [OF dec_reach.dec_reach_start assms(1)] show ?case .
next
  case (dec_reach_step s s')
  from dec_reach.dec_reach_step [OF dec_reach_step.IH dec_reach_step.hyps(2)] show ?case .
qed

text \<open>The loop reaches a state whose iteration is its last.\<close>

lemma dec_reach_last:
  "\<exists>s. dec_reach block ol op st s \<and> (\<forall>x. dec_iter block ol op s \<noteq> Continue x)"
proof (induction block ol op st rule: dec_loop.induct)
  case (1 block ol op st)
  show ?case
  proof (cases "\<exists>st'. dec_iter block ol op st = Continue st'")
    case True
    then obtain st' where c: "dec_iter block ol op st = Continue st'" by blast
    from "1.IH" [OF c] obtain s where
      "dec_reach block ol op st' s" "\<forall>x. dec_iter block ol op s \<noteq> Continue x"
      by blast
    with dec_reach_front [OF c] show ?thesis by blast
  next
    case False
    with dec_reach_start [of block ol op st] show ?thesis by blast
  qed
qed

lemma dec_loop_throws:
  assumes "dec_loop block ol op st = Inl e"
  shows "\<exists>s. dec_reach block ol op st s \<and> dec_iter block ol op s = Throw e"
proof -
  from dec_reach_last obtain s where
    s: "dec_reach block ol op st s" "\<forall>x. dec_iter block ol op s \<noteq> Continue x"
    by blast
  from dec_reach_loop [OF s(1)] assms have "dec_loop block ol op s = Inl e" by simp
  with s(2) have "dec_iter block ol op s = Throw e"
    by (cases "dec_iter block ol op s") (simp_all add: dec_loop.simps [of block ol op s])
  with s(1) show ?thesis by blast
qed

lemma dec_loop_breaks:
  assumes "dec_loop block ol op st = Inr (bytes, warned)"
  shows "\<exists>s. dec_reach block ol op st s \<and> dec_iter block ol op s = Break bytes warned"
proof -
  from dec_reach_last obtain s where
    s: "dec_reach block ol op st s" "\<forall>x. dec_iter block ol op s \<noteq> Continue x"
    by blast
  from dec_reach_loop [OF s(1)] assms have "dec_loop block ol op s = Inr (bytes, warned)" by simp
  with s(2) have "dec_iter block ol op s = Break bytes warned"
    by (cases "dec_iter block ol op s") (simp_all add: dec_loop.simps [of block ol op s])
  with s(1) show ?thesis by blast
qed

lemma dec_copy_pair_pos [simp]: "pair_pos (dec_copy ofs i len s) = pair_pos s"
  by (induction ofs i len s rule: dec_copy.induct) (subst dec_copy.simps, simp add: Let_def)

lemma dec_copy_lit_pos [simp]: "lit_pos (dec_copy ofs i len s) = lit_pos s"
  by (induction ofs i len s rule: dec_copy.induct) (subst dec_copy.simps, simp add: Let_def)

lemma dec_copy_flags_pos [simp]: "flags_pos (dec_copy ofs i len s) = flags_pos s"
  by (induction ofs i len s rule: dec_copy.induct) (subst dec_copy.simps, simp add: Let_def)

lemma dec_copy_mask_w [simp]: "mask_w (dec_copy ofs i len s) = mask_w s"
  by (induction ofs i len s rule: dec_copy.induct) (subst dec_copy.simps, simp add: Let_def)

lemma dec_copy_flag_word [simp]: "flag_word (dec_copy ofs i len s) = flag_word s"
  by (induction ofs i len s rule: dec_copy.induct) (subst dec_copy.simps, simp add: Let_def)

lemma dec_iter_throw_literals:
  "dec_iter block ol op st = Throw (MalformedBlock LiteralsEnded) \<longleftrightarrow>
     literals_exhausted block 0 ol op st"
  by (auto simp: dec_iter_def dec_bit_def dec_literal_def dec_pair_def Let_def next_bit_def
                 literals_exhausted_def
           split: if_splits option.splits)

lemma dec_iter_throw_pairs:
  "dec_iter block ol op st = Throw (MalformedBlock PairsEnded) \<longleftrightarrow>
     pairs_exhausted block 0 (length block) ol st"
  by (auto simp: dec_iter_def dec_bit_def dec_literal_def dec_pair_def Let_def next_bit_def
                 pairs_exhausted_def
           split: if_splits option.splits)

lemma dec_iter_throw_other:
  "dec_iter block ol op st \<noteq> Throw (MalformedBlock BlockTooSmall)"
  "dec_iter block ol op st \<noteq> Throw (MalformedBlock InvalidOffsets)"
  by (auto simp: dec_iter_def dec_bit_def dec_literal_def dec_pair_def Let_def
           split: if_splits option.splits)

lemma dec_iter_in_bounds:
  assumes "ol < length block" "op < length block"
  shows "dec_iter block ol op st \<noteq> Throw OutOfBounds"
  using assms
  by (auto simp: dec_iter_def dec_bit_def dec_literal_def dec_pair_def read_eval
           split: if_splits option.splits)

lemma dec_iter_break:
  "dec_iter block ol op st = Break bytes warned \<longleftrightarrow>
     bytes = out st \<and>
     (flags_exhausted ol st \<and> warned = (flags_pos st < ol) \<or>
      at_terminator block 0 (length block) ol st \<and> \<not> warned)"
  by (auto simp: dec_iter_def dec_bit_def dec_literal_def dec_pair_def Let_def next_bit_def
                 flags_exhausted_def at_terminator_def unat_eq_0
           split: if_splits option.splits)

lemma rd_u32_some: "i + 4 \<le> length buf \<Longrightarrow> \<exists>w. rd_u32 buf i = Some w"
  by (simp add: rd_u32_def)

lemma decompress_ready:
  assumes "dec_ready block"
  shows "decompressLZSSBlock block
           = dec_loop block (block_off_literals block 0) (block_off_pairs block 0)
               (dec_init (block_off_literals block 0) (block_off_pairs block 0))"
proof -
  from assms have len: "12 \<le> length block" by (simp add: dec_ready_def)
  then obtain w0 w1 where w: "rd_u32 block 0 = Some w0" "rd_u32 block 4 = Some w1"
    using rd_u32_some [of 0 block] rd_u32_some [of 4 block] by auto
  with assms len show ?thesis
    by (simp add: decompressLZSSBlock_def dec_ready_def block_off_literals_def
                  block_off_pairs_def Let_def)
qed

lemma decompress_not_ready:
  assumes "\<not> dec_ready block"
  shows "decompressLZSSBlock block = Inl (MalformedBlock BlockTooSmall) \<or>
         decompressLZSSBlock block = Inl (MalformedBlock InvalidOffsets)"
proof (cases "length block < 12")
  case True
  then show ?thesis by (simp add: decompressLZSSBlock_def)
next
  case False
  then obtain w0 w1 where w: "rd_u32 block 0 = Some w0" "rd_u32 block 4 = Some w1"
    using rd_u32_some [of 0 block] rd_u32_some [of 4 block] by auto
  with assms False show ?thesis
    by (auto simp: decompressLZSSBlock_def dec_ready_def block_off_literals_def
                   block_off_pairs_def Let_def)
qed

lemma dec_passes_loop:
  assumes "dec_passes block s"
  shows "decompressLZSSBlock block
           = dec_loop block (block_off_literals block 0) (block_off_pairs block 0) s"
proof -
  from assms have r: "dec_ready block"
    and p: "dec_reach block (block_off_literals block 0) (block_off_pairs block 0)
              (dec_init (block_off_literals block 0) (block_off_pairs block 0)) s"
    by (simp_all add: dec_passes_def)
  from decompress_ready [OF r] dec_reach_loop [OF p] show ?thesis by simp
qed

text \<open>
  Claim C5: the decoder fails with \<open>MalformedBlock\<close> exactly when the block is shorter
  than 12 bytes, or \<^verbatim>\<open>off_literals\<close> or \<^verbatim>\<open>off_pairs\<close> is at least the block length, or
  \<^verbatim>\<open>off_literals\<close> is below 8, or its run passes through a state in which a
  literal-flagged bit is processed with the literal cursor at or beyond \<^verbatim>\<open>off_pairs\<close>, or
  through a state in which a reference-flagged bit is processed with fewer than 2 bytes
  left before the end of the block. It fails in no other way: it never reads outside the
  block.
\<close>

theorem decoder_fails_exactly_when_malformed:
  "((\<exists>m. decompressLZSSBlock block = Inl (MalformedBlock m)) \<longleftrightarrow>
      length block < 12 \<or>
      block_off_literals block 0 \<ge> length block \<or>
      block_off_pairs block 0 \<ge> length block \<or>
      block_off_literals block 0 < 8 \<or>
      (\<exists>s. dec_passes block s \<and>
           literals_exhausted block 0 (block_off_literals block 0) (block_off_pairs block 0) s) \<or>
      (\<exists>s. dec_passes block s \<and>
           pairs_exhausted block 0 (length block) (block_off_literals block 0) s))
   \<and> decompressLZSSBlock block \<noteq> Inl OutOfBounds"
proof (cases "dec_ready block")
  case False
  from decompress_not_ready [OF False] have
    "\<exists>m. decompressLZSSBlock block = Inl (MalformedBlock m)"
    "decompressLZSSBlock block \<noteq> Inl OutOfBounds" by auto
  moreover from False have
    "length block < 12 \<or> block_off_literals block 0 \<ge> length block \<or>
     block_off_pairs block 0 \<ge> length block \<or> block_off_literals block 0 < 8"
    by (auto simp: dec_ready_def)
  ultimately show ?thesis by blast
next
  case True
  let ?ol = "block_off_literals block 0" and ?op = "block_off_pairs block 0"
  from True have hdr: "\<not> (length block < 12 \<or> ?ol \<ge> length block \<or>
     ?op \<ge> length block \<or> ?ol < 8)"
    and bounds: "?ol < length block" "?op < length block"
    by (auto simp: dec_ready_def)
  have run: "decompressLZSSBlock block = dec_loop block ?ol ?op (dec_init ?ol ?op)"
    by (rule decompress_ready [OF True])
  have passes: "dec_passes block s \<longleftrightarrow> dec_reach block ?ol ?op (dec_init ?ol ?op) s" for s
    using True by (simp add: dec_passes_def)
  have oob: "decompressLZSSBlock block \<noteq> Inl OutOfBounds"
  proof
    assume "decompressLZSSBlock block = Inl OutOfBounds"
    with run dec_loop_throws obtain s where "dec_iter block ?ol ?op s = Throw OutOfBounds"
      by metis
    with dec_iter_in_bounds [OF bounds] show False by blast
  qed
  have fwd: "(\<exists>s. dec_passes block s \<and> literals_exhausted block 0 ?ol ?op s) \<or>
             (\<exists>s. dec_passes block s \<and> pairs_exhausted block 0 (length block) ?ol s)"
    if "decompressLZSSBlock block = Inl (MalformedBlock m)" for m
  proof -
    from that run dec_loop_throws obtain s where
      s: "dec_reach block ?ol ?op (dec_init ?ol ?op) s"
         "dec_iter block ?ol ?op s = Throw (MalformedBlock m)"
      by metis
    show ?thesis
    proof (cases m)
      case LiteralsEnded
      with s(2) have "literals_exhausted block 0 ?ol ?op s" by (simp add: dec_iter_throw_literals)
      with s(1) passes show ?thesis by blast
    next
      case PairsEnded
      with s(2) have "pairs_exhausted block 0 (length block) ?ol s"
        by (simp add: dec_iter_throw_pairs)
      with s(1) passes show ?thesis by blast
    next
      case BlockTooSmall
      with s(2) dec_iter_throw_other(1) show ?thesis by blast
    next
      case InvalidOffsets
      with s(2) dec_iter_throw_other(2) show ?thesis by blast
    qed
  qed
  have bwd_lit: "\<exists>m. decompressLZSSBlock block = Inl (MalformedBlock m)"
    if "dec_passes block s" "literals_exhausted block 0 ?ol ?op s" for s
  proof -
    from that(2) have "dec_iter block ?ol ?op s = Throw (MalformedBlock LiteralsEnded)"
      by (simp add: dec_iter_throw_literals)
    then have "dec_loop block ?ol ?op s = Inl (MalformedBlock LiteralsEnded)"
      by (simp add: dec_loop.simps [of block ?ol ?op s])
    with dec_passes_loop [OF that(1)] show ?thesis by simp
  qed
  have bwd_pair: "\<exists>m. decompressLZSSBlock block = Inl (MalformedBlock m)"
    if "dec_passes block s" "pairs_exhausted block 0 (length block) ?ol s" for s
  proof -
    from that(2) have "dec_iter block ?ol ?op s = Throw (MalformedBlock PairsEnded)"
      by (simp add: dec_iter_throw_pairs)
    then have "dec_loop block ?ol ?op s = Inl (MalformedBlock PairsEnded)"
      by (simp add: dec_loop.simps [of block ?ol ?op s])
    with dec_passes_loop [OF that(1)] show ?thesis by simp
  qed
  from hdr oob fwd bwd_lit bwd_pair show ?thesis by blast
qed

theorem decoder_fails_exactly_when_malformed_witness:
  "dec_passes [12, 0, 0, 0, 12, 0, 0, 0, 0, 0, 0, 0x80, 0, 0] (dec_init 12 12)
   \<and> literals_exhausted [12, 0, 0, 0, 12, 0, 0, 0, 0, 0, 0, 0x80, 0, 0] 0
        (block_off_literals [12, 0, 0, 0, 12, 0, 0, 0, 0, 0, 0, 0x80, 0, 0] 0)
        (block_off_pairs [12, 0, 0, 0, 12, 0, 0, 0, 0, 0, 0, 0x80, 0, 0] 0) (dec_init 12 12)
   \<and> (\<exists>m. decompressLZSSBlock [12, 0, 0, 0, 12, 0, 0, 0, 0, 0, 0, 0x80, 0, 0]
              = Inl (MalformedBlock m))
   \<and> decompressLZSSBlock [12, 0, 0, 0, 12, 0, 0, 0, 0, 0, 0, 0x80, 0, 0] \<noteq> Inl OutOfBounds"
proof -
  let ?B = "[12, 0, 0, 0, 12, 0, 0, 0, 0, 0, 0, 0x80, 0, 0] :: byte list"
  have ol: "block_off_literals ?B 0 = 12" and op: "block_off_pairs ?B 0 = 12"
    by (simp_all add: block_off_literals_def block_off_pairs_def read_eval)
  have p: "dec_passes ?B (dec_init 12 12)"
    by (simp add: dec_passes_def dec_ready_def ol op dec_reach_start)
  have l: "literals_exhausted ?B 0 (block_off_literals ?B 0) (block_off_pairs ?B 0)
             (dec_init 12 12)"
    by (simp add: ol op literals_exhausted_def next_bit_def dec_init_def read_eval)
  from decoder_fails_exactly_when_malformed [of ?B] p l show ?thesis by blast
qed

text \<open>
  Claim C8: when the run of the decoder on a block reaches a state in which the mask is
  exhausted and the next 4-byte flag word would extend to or past \<^verbatim>\<open>off_literals\<close>, the
  decoder returns the output accumulated so far; this is a normal return, not a
  \<open>MalformedBlock\<close> failure, and the warning is written exactly when the flag cursor
  is strictly before \<^verbatim>\<open>off_literals\<close>.
\<close>

theorem decoder_flag_stream_end_is_clean:
  assumes "dec_passes block s"
    and "mask_w s = 0"
    and "flags_pos s + 4 > block_off_literals block 0"
  shows "decompressLZSSBlock block = Inr (out s, flags_pos s < block_off_literals block 0)"
proof -
  from assms(2,3) have
    "dec_iter block (block_off_literals block 0) (block_off_pairs block 0) s
       = Break (out s) (flags_pos s < block_off_literals block 0)"
    by (simp add: dec_iter_def)
  then have "dec_loop block (block_off_literals block 0) (block_off_pairs block 0) s
       = Inr (out s, flags_pos s < block_off_literals block 0)"
    by (simp add: dec_loop.simps [of block _ _ s])
  with dec_passes_loop [OF assms(1)] show ?thesis by simp
qed

theorem decoder_flag_stream_end_is_clean_witness:
  "dec_passes [10, 0, 0, 0, 10, 0, 0, 0, 0, 0, 0, 0] (dec_init 10 10)
   \<and> mask_w (dec_init 10 10) = 0
   \<and> flags_pos (dec_init 10 10) + 4 > block_off_literals [10, 0, 0, 0, 10, 0, 0, 0, 0, 0, 0, 0] 0
   \<and> decompressLZSSBlock [10, 0, 0, 0, 10, 0, 0, 0, 0, 0, 0, 0] = Inr ([], True)"
proof -
  let ?B = "[10, 0, 0, 0, 10, 0, 0, 0, 0, 0, 0, 0] :: byte list"
  have ol: "block_off_literals ?B 0 = 10" and op: "block_off_pairs ?B 0 = 10"
    by (simp_all add: block_off_literals_def block_off_pairs_def read_eval)
  have p: "dec_passes ?B (dec_init 10 10)"
    by (simp add: dec_passes_def dec_ready_def ol op dec_reach_start)
  have m: "mask_w (dec_init 10 10) = 0"
    and f: "flags_pos (dec_init 10 10) + 4 > block_off_literals ?B 0"
    by (simp_all add: dec_init_def ol)
  from decoder_flag_stream_end_is_clean [OF p m f] p m f show ?thesis
    by (simp add: dec_init_def ol)
qed

section \<open>The sliding dictionary\<close>

lemma pair_offset_div: "unat (drop_bit 4 (v :: 16 word)) = unat v div 16"
  by (simp add: unat_drop_bit_eq drop_bit_eq_div unat_div)

lemma pair_length_mod: "unat ((v :: 16 word) AND 0xF) = unat v mod 16"
proof -
  have "(0xF :: 16 word) = mask 4" by (simp add: mask_eq_exp_minus_1)
  then have "unat (v AND 0xF) = unat (take_bit 4 v)" by (simp add: take_bit_eq_mask)
  also have "\<dots> = unat v mod 16" by (simp add: unsigned_take_bit_eq take_bit_eq_mod unat_mod)
  finally show ?thesis .
qed

lemma pair_offset_12_bits: "unat (drop_bit 4 (v :: 16 word)) < 4096"
proof -
  have "unat v < 65536" using unsigned_less [of v, where ?'a = nat] by simp
  then show ?thesis by (simp add: pair_offset_div)
qed

lemma dec_copy_fold:
  "((dict_buf (dec_copy ofs i len s), dict_index (dec_copy ofs i len s)),
    out (dec_copy ofs i len s))
   = fold (spec_copy_step ofs) [i..<len] ((dict_buf s, dict_index s), out s)"
proof (induction ofs i len s rule: dec_copy.induct)
  case (1 ofs i len s)
  show ?case
  proof (cases "i < len")
    case True
    let ?b = "dict_buf s ! ((ofs + i) mod 4096)"
    let ?s = "s\<lparr>out := out s @ [?b],
                dict_buf := (dict_buf s)[dict_index s := ?b],
                dict_index := (dict_index s + 1) mod 4096\<rparr>"
    have unfold: "dec_copy ofs i len s = dec_copy ofs (i + 1) len ?s"
      using True by (subst dec_copy.simps) (simp add: Let_def)
    have step: "spec_copy_step ofs i ((dict_buf s, dict_index s), out s)
                  = ((dict_buf ?s, dict_index ?s), out ?s)"
      by (simp add: spec_copy_step_def spec_dict_write_def Let_def)
    from True have "[i..<len] = i # [i + 1..<len]" by (simp add: upt_conv_Cons)
    then have "fold (spec_copy_step ofs) [i..<len] ((dict_buf s, dict_index s), out s)
             = fold (spec_copy_step ofs) [i + 1..<len] ((dict_buf ?s, dict_index ?s), out ?s)"
      by (simp only: fold_simps step)
    with "1.IH" [OF True refl] unfold show ?thesis by simp
  next
    case False
    then show ?thesis by (simp add: dec_copy.simps [of ofs i len s])
  qed
qed

lemma dec_copy_spec:
  "((dict_buf (dec_copy ofs 0 len s), dict_index (dec_copy ofs 0 len s)),
    out (dec_copy ofs 0 len s))
   = spec_copy ofs len ((dict_buf s, dict_index s), out s)"
  by (simp add: spec_copy_def dec_copy_fold)

lemma dict_follows_emit:
  assumes "dict_follows_output s"
  shows "dict_follows_output
           (s\<lparr>out := out s @ [b],
              dict_buf := (dict_buf s)[dict_index s := b],
              dict_index := (dict_index s + 1) mod 4096\<rparr>)"
proof -
  from assms have "spec_dict_after (out s) = (dict_buf s, dict_index s)"
    by (simp add: dict_follows_output_def)
  then have "spec_dict_after (out s @ [b])
               = ((dict_buf s)[dict_index s := b], (dict_index s + 1) mod 4096)"
    by (simp add: spec_dict_after_def spec_dict_write_def)
  with assms show ?thesis by (simp add: dict_follows_output_def)
qed

lemma dict_follows_copy:
  "dict_follows_output s \<Longrightarrow> dict_follows_output (dec_copy ofs i len s)"
proof (induction ofs i len s rule: dec_copy.induct)
  case (1 ofs i len s)
  show ?case
  proof (cases "i < len")
    case True
    let ?b = "dict_buf s ! ((ofs + i) mod 4096)"
    let ?s = "s\<lparr>out := out s @ [?b],
                dict_buf := (dict_buf s)[dict_index s := ?b],
                dict_index := (dict_index s + 1) mod 4096\<rparr>"
    have unfold: "dec_copy ofs i len s = dec_copy ofs (i + 1) len ?s"
      using True by (subst dec_copy.simps) (simp add: Let_def)
    from "1.IH" [OF True refl dict_follows_emit [OF "1.prems"]] unfold show ?thesis by simp
  next
    case False
    with "1.prems" show ?thesis by (simp add: dec_copy.simps [of ofs i len s])
  qed
qed

lemma dict_follows_frame:
  "dict_follows_output (s\<lparr>mask_w := m\<rparr>) = dict_follows_output s"
  "dict_follows_output (s\<lparr>pair_pos := p\<rparr>) = dict_follows_output s"
  "dict_follows_output (s\<lparr>lit_pos := l\<rparr>) = dict_follows_output s"
  "dict_follows_output (s\<lparr>mask_w := m, flag_word := w, flags_pos := f\<rparr>) = dict_follows_output s"
  by (simp_all add: dict_follows_output_def)

lemma dec_literal_emits:
  assumes "dec_literal block op s = Continue s'"
  shows "\<exists>b. rd_u8 block (lit_pos s) = Some b \<and>
             s' = s\<lparr>lit_pos := lit_pos s + 1, out := out s @ [b],
                     dict_buf := (dict_buf s)[dict_index s := b],
                     dict_index := (dict_index s + 1) mod 4096\<rparr>"
  using assms by (auto simp: dec_literal_def split: if_splits option.splits)

lemma dec_pair_copies:
  assumes "dec_pair block s = Continue s'"
  shows "\<exists>v. rd_u16 block (pair_pos s) = Some v \<and> 0 < unat v div 16 \<and>
             s' = dec_copy (unat v div 16) 0 (unat v mod 16 + 2) (s\<lparr>pair_pos := pair_pos s + 2\<rparr>)"
  using assms
  by (auto simp: dec_pair_def Let_def pair_offset_div pair_length_mod
           split: if_splits option.splits)

lemma dict_follows_literal:
  assumes "dec_literal block op s = Continue s'" and "dict_follows_output s"
  shows "dict_follows_output s'"
proof -
  from dec_literal_emits [OF assms(1)] obtain b where
    s': "s' = s\<lparr>lit_pos := lit_pos s + 1, out := out s @ [b],
                  dict_buf := (dict_buf s)[dict_index s := b],
                  dict_index := (dict_index s + 1) mod 4096\<rparr>"
    by blast
  have "dict_follows_output s' = dict_follows_output
           (s\<lparr>out := out s @ [b],
              dict_buf := (dict_buf s)[dict_index s := b],
              dict_index := (dict_index s + 1) mod 4096\<rparr>)"
    by (simp add: s' dict_follows_output_def)
  with dict_follows_emit [OF assms(2), of b] show ?thesis by simp
qed

lemma dict_follows_pair:
  assumes "dec_pair block s = Continue s'" and "dict_follows_output s"
  shows "dict_follows_output s'"
proof -
  from dec_pair_copies [OF assms(1)] obtain v :: "16 word" where
    s': "s' = dec_copy (unat v div 16) 0 (unat v mod 16 + 2) (s\<lparr>pair_pos := pair_pos s + 2\<rparr>)"
    by blast
  from assms(2) have "dict_follows_output (s\<lparr>pair_pos := pair_pos s + 2\<rparr>)"
    by (simp only: dict_follows_frame)
  from dict_follows_copy [OF this] s' show ?thesis by simp
qed

lemma dict_follows_bit:
  assumes "dec_bit block op s = Continue s'" and "dict_follows_output s"
  shows "dict_follows_output s'"
proof -
  from assms(2) have inv: "dict_follows_output (s\<lparr>mask_w := drop_bit 1 (mask_w s)\<rparr>)"
    by (simp only: dict_follows_frame)
  show ?thesis
  proof (cases "flag_word s AND mask_w s \<noteq> 0")
    case True
    with assms(1) have "dec_literal block op (s\<lparr>mask_w := drop_bit 1 (mask_w s)\<rparr>) = Continue s'"
      by (simp add: dec_bit_def)
    from dict_follows_literal [OF this inv] show ?thesis .
  next
    case False
    with assms(1) have "dec_pair block (s\<lparr>mask_w := drop_bit 1 (mask_w s)\<rparr>) = Continue s'"
      by (simp add: dec_bit_def)
    from dict_follows_pair [OF this inv] show ?thesis .
  qed
qed

lemma dict_follows_iter:
  assumes "dec_iter block ol op s = Continue s'" and "dict_follows_output s"
  shows "dict_follows_output s'"
proof (cases "mask_w s = 0")
  case False
  with assms(1) have "dec_bit block op s = Continue s'" by (simp add: dec_iter_def)
  from dict_follows_bit [OF this assms(2)] show ?thesis .
next
  case True
  with assms(1) obtain w where
    "dec_bit block op
       (s\<lparr>mask_w := 0x80000000, flag_word := w, flags_pos := flags_pos s + 4\<rparr>) = Continue s'"
    by (auto simp: dec_iter_def split: if_splits option.splits)
  moreover from assms(2) have
    "dict_follows_output (s\<lparr>mask_w := 0x80000000, flag_word := w, flags_pos := flags_pos s + 4\<rparr>)"
    by (simp only: dict_follows_frame)
  ultimately show ?thesis by (rule dict_follows_bit)
qed

lemma dict_follows_reach:
  "dec_reach block ol op st s \<Longrightarrow> dict_follows_output st \<Longrightarrow> dict_follows_output s"
  by (induction rule: dec_reach.induct) (auto intro: dict_follows_iter)

lemma dict_follows_init: "dict_follows_output (dec_init ol op)"
  by (simp add: dict_follows_output_def dec_init_def spec_dict_after_def)

text \<open>
  Claim C7: the dictionary of a decoder run is a 4096-byte buffer that starts all zero
  with the write cursor at index 1; in every state of the run it is the dictionary that
  results from writing each emitted byte, literal or copied, at the cursor while the
  cursor advances modulo 4096; a literal is appended to the output and written at the
  cursor; a reference pair code holds the dictionary offset in its upper 12 bits and the
  length minus 2 in its lower 4 bits, and its copy reads byte by byte from index
  \<open>(offset + i) mod 4096\<close>, each byte being written back at the cursor before the next
  one is read.
\<close>

theorem sliding_dictionary_semantics:
  "dict_buf (dec_init off_literals off_pairs) = replicate 4096 0
   \<and> dict_index (dec_init off_literals off_pairs) = 1
   \<and> (\<forall>s. dec_passes block s \<longrightarrow>
          length (dict_buf s) = 4096 \<and> dict_index s < 4096 \<and>
          (dict_buf s, dict_index s) = spec_dict_after (out s))
   \<and> (\<forall>s s'. dec_literal block off_pairs s = Continue s' \<longrightarrow>
          (\<exists>b. rd_u8 block (lit_pos s) = Some b \<and> out s' = out s @ [b] \<and>
               (dict_buf s', dict_index s') = spec_dict_write b (dict_buf s, dict_index s)))
   \<and> (\<forall>s s'. dec_pair block s = Continue s' \<longrightarrow>
          (\<exists>v. rd_u16 block (pair_pos s) = Some v \<and>
               0 < unat v div 16 \<and> unat v div 16 < 4096 \<and>
               ((dict_buf s', dict_index s'), out s')
                 = spec_copy (unat v div 16) (unat v mod 16 + 2)
                     ((dict_buf s, dict_index s), out s)))"
proof -
  have a: "dict_buf (dec_init off_literals off_pairs) = replicate 4096 0"
    "dict_index (dec_init off_literals off_pairs) = 1"
    by (simp_all add: dec_init_def)
  have b: "length (dict_buf s) = 4096 \<and> dict_index s < 4096 \<and>
           (dict_buf s, dict_index s) = spec_dict_after (out s)" if "dec_passes block s" for s
  proof -
    from that have "dec_reach block (block_off_literals block 0) (block_off_pairs block 0)
       (dec_init (block_off_literals block 0) (block_off_pairs block 0)) s"
      by (simp add: dec_passes_def)
    from dict_follows_reach [OF this dict_follows_init] show ?thesis
      by (simp add: dict_follows_output_def)
  qed
  have c: "\<exists>b. rd_u8 block (lit_pos s) = Some b \<and> out s' = out s @ [b] \<and>
               (dict_buf s', dict_index s') = spec_dict_write b (dict_buf s, dict_index s)"
    if "dec_literal block off_pairs s = Continue s'" for s s'
    using dec_literal_emits [OF that] by (auto simp: spec_dict_write_def)
  have d: "\<exists>v. rd_u16 block (pair_pos s) = Some v \<and>
               0 < unat v div 16 \<and> unat v div 16 < 4096 \<and>
               ((dict_buf s', dict_index s'), out s')
                 = spec_copy (unat v div 16) (unat v mod 16 + 2)
                     ((dict_buf s, dict_index s), out s)"
    if "dec_pair block s = Continue s'" for s s'
  proof -
    from dec_pair_copies [OF that] obtain v :: "16 word" where
      v: "rd_u16 block (pair_pos s) = Some v" "0 < unat v div 16"
      and s': "s' = dec_copy (unat v div 16) 0 (unat v mod 16 + 2)
                      (s\<lparr>pair_pos := pair_pos s + 2\<rparr>)"
      by blast
    from pair_offset_12_bits [of v] have "unat v div 16 < 4096" by (simp add: pair_offset_div)
    moreover have "((dict_buf s', dict_index s'), out s')
                 = spec_copy (unat v div 16) (unat v mod 16 + 2)
                     ((dict_buf s, dict_index s), out s)"
      unfolding s' dec_copy_spec by simp
    ultimately show ?thesis using v by blast
  qed
  from a b c d show ?thesis by blast
qed

theorem sliding_dictionary_semantics_witness:
  "dec_pair [12, 0, 0, 0, 13, 0, 0, 0, 0, 0, 0, 0x80, 0xAB, 0x11, 0, 0, 0]
     \<lparr>flags_pos = 12, lit_pos = 13, pair_pos = 13,
      dict_buf = (replicate 4096 0)[1 := 0xAB], dict_index = 2,
      flag_word = 0x80000000, mask_w = 0x20000000, out = [0xAB]\<rparr>
   = Continue (dec_copy 1 0 3
       \<lparr>flags_pos = 12, lit_pos = 13, pair_pos = 15,
        dict_buf = (replicate 4096 0)[1 := 0xAB], dict_index = 2,
        flag_word = 0x80000000, mask_w = 0x20000000, out = [0xAB]\<rparr>)
   \<and> out (dec_copy 1 0 3
       \<lparr>flags_pos = 12, lit_pos = 13, pair_pos = 15,
        dict_buf = (replicate 4096 0)[1 := 0xAB], dict_index = 2,
        flag_word = 0x80000000, mask_w = 0x20000000, out = [0xAB]\<rparr>) = [0xAB, 0xAB, 0xAB, 0xAB]
   \<and> dict_index (dec_copy 1 0 3
       \<lparr>flags_pos = 12, lit_pos = 13, pair_pos = 15,
        dict_buf = (replicate 4096 0)[1 := 0xAB], dict_index = 2,
        flag_word = 0x80000000, mask_w = 0x20000000, out = [0xAB]\<rparr>) = 5"
proof -
  let ?B = "[12, 0, 0, 0, 13, 0, 0, 0, 0, 0, 0, 0x80, 0xAB, 0x11, 0, 0, 0] :: byte list"
  let ?s = "\<lparr>flags_pos = 12, lit_pos = 13, pair_pos = 13,
      dict_buf = (replicate 4096 0)[1 := 0xAB], dict_index = 2,
      flag_word = 0x80000000, mask_w = 0x20000000, out = [0xAB]\<rparr> :: dec_state"
  let ?s' = "dec_copy 1 0 3
       \<lparr>flags_pos = 12, lit_pos = 13, pair_pos = 15,
        dict_buf = (replicate 4096 0)[1 := 0xAB], dict_index = 2,
        flag_word = 0x80000000, mask_w = 0x20000000, out = [0xAB]\<rparr>"
  have rd: "rd_u16 ?B 13 = Some 17" by (simp add: read_eval)
  have step: "dec_pair ?B ?s = Continue ?s'"
    by (simp add: dec_pair_def rd Let_def) (simp only: numeral_3_eq_3)
  have code: "unat (17 :: 16 word) div 16 = 1" "unat (17 :: 16 word) mod 16 + 2 = 3"
    by simp_all
  have eval: "spec_copy 1 3 ((dict_buf ?s, dict_index ?s), out ?s)
                = (((replicate 4096 0)[1 := 0xAB, 2 := 0xAB, 3 := 0xAB, 4 := 0xAB], 5),
                   [0xAB, 0xAB, 0xAB, 0xAB])"
    by (simp add: spec_copy_def spec_copy_step_def spec_dict_write_def Let_def upt_rec
                  numeral_2_eq_2 [symmetric])
  from sliding_dictionary_semantics [of 12 13 ?B] step obtain v where
    v: "rd_u16 ?B (pair_pos ?s) = Some v" and
    eq: "((dict_buf ?s', dict_index ?s'), out ?s')
       = spec_copy (unat v div 16) (unat v mod 16 + 2) ((dict_buf ?s, dict_index ?s), out ?s)"
    by blast
  from v rd have "v = 17" by simp
  from eq [unfolded this code eval] have "out ?s' = [0xAB, 0xAB, 0xAB, 0xAB]" "dict_index ?s' = 5"
    by simp_all
  with step show ?thesis by simp
qed

section \<open>Runs of the validator\<close>

lemma val_reach_loop:
  "val_reach fb so rem ol op st s \<Longrightarrow> val_loop fb so rem ol op s = val_loop fb so rem ol op st"
proof (induction rule: val_reach.induct)
  case val_reach_start
  show ?case by simp
next
  case (val_reach_step s s')
  then show ?case by (simp add: val_loop.simps [of fb so rem ol op s])
qed

lemma val_reach_front:
  assumes "val_iter fb so rem ol op st = VContinue st'" and "val_reach fb so rem ol op st' s"
  shows "val_reach fb so rem ol op st s"
  using assms(2)
proof (induction rule: val_reach.induct)
  case val_reach_start
  from val_reach.val_reach_step [OF val_reach.val_reach_start assms(1)] show ?case .
next
  case (val_reach_step s s')
  from val_reach.val_reach_step [OF val_reach_step.IH val_reach_step.hyps(2)] show ?case .
qed

lemma val_reach_last:
  "\<exists>s. val_reach fb so rem ol op st s \<and> (\<forall>x. val_iter fb so rem ol op s \<noteq> VContinue x)"
proof (induction fb so rem ol op st rule: val_loop.induct)
  case (1 fb so rem ol op st)
  show ?case
  proof (cases "\<exists>st'. val_iter fb so rem ol op st = VContinue st'")
    case True
    then obtain st' where c: "val_iter fb so rem ol op st = VContinue st'" by blast
    from "1.IH" [OF c] obtain s where
      "val_reach fb so rem ol op st' s" "\<forall>x. val_iter fb so rem ol op s \<noteq> VContinue x"
      by blast
    with val_reach_front [OF c] show ?thesis by blast
  next
    case False
    with val_reach_start [of fb so rem ol op st] show ?thesis by blast
  qed
qed

lemma val_loop_returns:
  assumes "val_loop fb so rem ol op st = Inr (Returned r)"
  shows "\<exists>s. val_reach fb so rem ol op st s \<and> val_iter fb so rem ol op s = VReturn r"
proof -
  from val_reach_last obtain s where
    s: "val_reach fb so rem ol op st s" "\<forall>x. val_iter fb so rem ol op s \<noteq> VContinue x"
    by blast
  from val_reach_loop [OF s(1)] assms have "val_loop fb so rem ol op s = Inr (Returned r)"
    by simp
  with s(2) have "val_iter fb so rem ol op s = VReturn r"
    by (cases "val_iter fb so rem ol op s") (simp_all add: val_loop.simps [of fb so rem ol op s])
  with s(1) show ?thesis by blast
qed

lemma at_terminator_iff:
  "at_terminator buf base bound ol st \<longleftrightarrow>
     next_bit buf base ol st = Some False \<and> pair_pos st + 2 \<le> bound \<and>
     (\<exists>v. rd_u16 buf (base + pair_pos st) = Some v \<and> drop_bit 4 v = 0)"
  by (simp add: at_terminator_def split: option.splits)

lemma val_iter_at_terminator:
  "val_iter fb so rem ol op s = VReturn r \<longleftrightarrow>
     at_terminator fb so rem ol s \<and>
     r = \<lparr>success = True, consumedBytes = pair_pos s + 2,
          decompressedSize = decompressedSize_cnt s\<rparr>"
  by (simp add: val_iter_return at_terminator_iff)

text \<open>The function in terms of its loop, once the checks before the loop have passed.\<close>

lemma validate_ready:
  assumes "val_ready fb so"
  shows "validateAndGetConsumedSize fb so =
     (case val_loop fb so (size_sub (length fb) so) (block_off_literals fb so)
             (block_off_pairs fb so)
             (val_init (block_off_literals fb so) (block_off_pairs fb so)) of
        Inl e \<Rightarrow> Inl e
      | Inr (Returned r) \<Rightarrow> Inr r
      | Inr (Broke x) \<Rightarrow> Inr \<lparr>success = False, consumedBytes = 0, decompressedSize = 0\<rparr>)"
  using assms
  by (auto simp: validateAndGetConsumedSize_def val_ready_def block_off_literals_def
                 block_off_pairs_def Let_def)

lemma validate_not_ready:
  assumes "\<not> val_ready fb so" and "validateAndGetConsumedSize fb so = Inr res"
  shows "res = \<lparr>success = False, consumedBytes = 0, decompressedSize = 0\<rparr>"
  using assms
  by (auto simp: validateAndGetConsumedSize_def val_ready_def block_off_literals_def
                 block_off_pairs_def Let_def split: if_splits option.splits)

lemma val_passes_loop:
  assumes "val_passes fb so s"
  shows "validateAndGetConsumedSize fb so =
     (case val_loop fb so (size_sub (length fb) so) (block_off_literals fb so)
             (block_off_pairs fb so) s of
        Inl e \<Rightarrow> Inl e
      | Inr (Returned r) \<Rightarrow> Inr r
      | Inr (Broke x) \<Rightarrow> Inr \<lparr>success = False, consumedBytes = 0, decompressedSize = 0\<rparr>)"
proof -
  from assms have r: "val_ready fb so"
    and p: "val_reach fb so (size_sub (length fb) so) (block_off_literals fb so)
              (block_off_pairs fb so)
              (val_init (block_off_literals fb so) (block_off_pairs fb so)) s"
    by (simp_all add: val_passes_def)
  from validate_ready [OF r] val_reach_loop [OF p] show ?thesis by simp
qed

lemma validate_success_passes:
  assumes "validateAndGetConsumedSize fb so = Inr res" and "success res"
  shows "\<exists>s. val_passes fb so s \<and>
             val_iter fb so (size_sub (length fb) so) (block_off_literals fb so)
               (block_off_pairs fb so) s = VReturn res"
proof -
  have r: "val_ready fb so"
  proof (rule ccontr)
    assume "\<not> val_ready fb so"
    from validate_not_ready [OF this assms(1)] assms(2) show False by simp
  qed
  from validate_ready [OF r] assms have
    "val_loop fb so (size_sub (length fb) so) (block_off_literals fb so)
       (block_off_pairs fb so)
       (val_init (block_off_literals fb so) (block_off_pairs fb so)) = Inr (Returned res)"
    by (auto split: sum.splits val_end.splits)
  from val_loop_returns [OF this] r show ?thesis by (auto simp: val_passes_def)
qed

lemma val_iter_exhausted:
  assumes "flags_exhausted ol s \<or> literals_exhausted fb so ol op s \<or> pairs_exhausted fb so rem ol s"
  shows "\<exists>x. val_iter fb so rem ol op s = VBreak x"
proof -
  from assms consider "val_iter fb so rem ol op s = VBreak FlagStream"
    | "val_iter fb so rem ol op s = VBreak LiteralStream"
    | "val_iter fb so rem ol op s = VBreak PairStream"
    unfolding val_iter_break_flags val_iter_break_literals val_iter_break_pairs
      literals_exhausted_def pairs_exhausted_def
    by blast
  then show ?thesis by cases blast+
qed

text \<open>
  Claim C4: when the validator returns a result, it reports success if and only if its
  run passes through a state in which a reference-flagged bit meets a pair code with
  dictionary offset 0, the terminator; a run that passes through a state in which the
  flag stream, the literal stream or the pair stream is exhausted returns
  \<^verbatim>\<open>{ false, 0, 0 }\<close>; at the terminator the consumed size is the position just after
  the terminator pair, counted from the start offset, and the decompressed size is the
  count of bytes emitted up to there, which is the length of what the decoder emits for
  the block.
\<close>

theorem validator_succeeds_exactly_at_terminator:
  assumes "validateAndGetConsumedSize fileBuffer startOffset = Inr res"
  shows
    "(success res \<longleftrightarrow>
        (\<exists>s. val_passes fileBuffer startOffset s \<and>
             at_terminator fileBuffer startOffset (size_sub (length fileBuffer) startOffset)
               (block_off_literals fileBuffer startOffset) s))
     \<and> ((\<exists>s. val_passes fileBuffer startOffset s \<and>
             (flags_exhausted (block_off_literals fileBuffer startOffset) s \<or>
              literals_exhausted fileBuffer startOffset (block_off_literals fileBuffer startOffset)
                (block_off_pairs fileBuffer startOffset) s \<or>
              pairs_exhausted fileBuffer startOffset (size_sub (length fileBuffer) startOffset)
                (block_off_literals fileBuffer startOffset) s))
          \<longrightarrow> res = \<lparr>success = False, consumedBytes = 0, decompressedSize = 0\<rparr>)
     \<and> (\<forall>s. val_passes fileBuffer startOffset s \<and>
             at_terminator fileBuffer startOffset (size_sub (length fileBuffer) startOffset)
               (block_off_literals fileBuffer startOffset) s
          \<longrightarrow> consumedBytes res = pair_pos s + 2 \<and>
              decompressedSize res = decompressedSize_cnt s)
     \<and> (success res \<longrightarrow>
          (\<exists>bytes warned.
             decompressLZSSBlock (take (consumedBytes res) (drop startOffset fileBuffer))
               = Inr (bytes, warned)
             \<and> length bytes = decompressedSize res))"
proof -
  let ?rem = "size_sub (length fileBuffer) startOffset"
  let ?ol = "block_off_literals fileBuffer startOffset"
  let ?op = "block_off_pairs fileBuffer startOffset"
  have at: "res = \<lparr>success = True, consumedBytes = pair_pos s + 2,
                    decompressedSize = decompressedSize_cnt s\<rparr>"
    if "val_passes fileBuffer startOffset s" "at_terminator fileBuffer startOffset ?rem ?ol s" for s
  proof -
    from that(2) have "val_iter fileBuffer startOffset ?rem ?ol ?op s
        = VReturn \<lparr>success = True, consumedBytes = pair_pos s + 2,
                   decompressedSize = decompressedSize_cnt s\<rparr>"
      by (simp add: val_iter_at_terminator)
    then have "val_loop fileBuffer startOffset ?rem ?ol ?op s
        = Inr (Returned \<lparr>success = True, consumedBytes = pair_pos s + 2,
                         decompressedSize = decompressedSize_cnt s\<rparr>)"
      by (simp add: val_loop.simps [of fileBuffer startOffset ?rem ?ol ?op s])
    with val_passes_loop [OF that(1)] assms show ?thesis by simp
  qed
  have fwd: "\<exists>s. val_passes fileBuffer startOffset s \<and>
                 at_terminator fileBuffer startOffset ?rem ?ol s" if "success res"
    using validate_success_passes [OF assms that] by (auto simp: val_iter_at_terminator)
  have ex: "res = \<lparr>success = False, consumedBytes = 0, decompressedSize = 0\<rparr>"
    if "val_passes fileBuffer startOffset s"
       "flags_exhausted ?ol s \<or> literals_exhausted fileBuffer startOffset ?ol ?op s \<or>
        pairs_exhausted fileBuffer startOffset ?rem ?ol s" for s
  proof -
    from val_iter_exhausted [OF that(2)] obtain x where
      "val_iter fileBuffer startOffset ?rem ?ol ?op s = VBreak x" by blast
    then have "val_loop fileBuffer startOffset ?rem ?ol ?op s = Inr (Broke x)"
      by (simp add: val_loop.simps [of fileBuffer startOffset ?rem ?ol ?op s])
    with val_passes_loop [OF that(1)] assms show ?thesis by simp
  qed
  have dec: "\<exists>bytes warned.
             decompressLZSSBlock (take (consumedBytes res) (drop startOffset fileBuffer))
               = Inr (bytes, warned)
             \<and> length bytes = decompressedSize res" if "success res"
    using validated_slice_decodes [OF assms that] by blast
  have bwd: "success res" if "val_passes fileBuffer startOffset s"
    "at_terminator fileBuffer startOffset ?rem ?ol s" for s
    using at [OF that] by simp
  have sizes: "consumedBytes res = pair_pos s + 2 \<and> decompressedSize res = decompressedSize_cnt s"
    if "val_passes fileBuffer startOffset s"
    "at_terminator fileBuffer startOffset ?rem ?ol s" for s
    using at [OF that] by simp
  from fwd bwd ex dec sizes show ?thesis by blast
qed

theorem validator_succeeds_exactly_at_terminator_witness:
  "validateAndGetConsumedSize
     [0xFF, 0xFF, 0xFF, 0xFF, 12, 0, 0, 0, 13, 0, 0, 0, 0, 0, 0, 0x80, 0xAB, 0x10, 0, 0, 0, 0x55] 4
     = Inr \<lparr>success = True, consumedBytes = 17, decompressedSize = 3\<rparr>
   \<and> (\<exists>s. val_passes
             [0xFF, 0xFF, 0xFF, 0xFF, 12, 0, 0, 0, 13, 0, 0, 0, 0, 0, 0, 0x80, 0xAB, 0x10, 0, 0, 0, 0x55]
             4 s
          \<and> pair_pos s + 2 = 17 \<and> decompressedSize_cnt s = 3)"
proof -
  let ?B = "[0xFF, 0xFF, 0xFF, 0xFF, 12, 0, 0, 0, 13, 0, 0, 0, 0, 0, 0, 0x80, 0xAB, 0x10, 0, 0,
             0, 0x55] :: byte list"
  let ?r = "\<lparr>success = True, consumedBytes = 17, decompressedSize = 3\<rparr>"
  have v: "validateAndGetConsumedSize ?B 4 = Inr ?r"
    by (simp add: val_eval read_eval)
  from validator_succeeds_exactly_at_terminator [OF v] have
    "\<exists>s. val_passes ?B 4 s \<and>
         at_terminator ?B 4 (size_sub (length ?B) 4) (block_off_literals ?B 4) s"
    and "\<forall>s. val_passes ?B 4 s \<and>
            at_terminator ?B 4 (size_sub (length ?B) 4) (block_off_literals ?B 4) s
          \<longrightarrow> consumedBytes ?r = pair_pos s + 2 \<and> decompressedSize ?r = decompressedSize_cnt s"
    by simp_all
  then obtain s where "val_passes ?B 4 s" "pair_pos s + 2 = 17" "decompressedSize_cnt s = 3"
    by fastforce
  with v show ?thesis by blast
qed

section \<open>The result of the scanner\<close>

lemma scan_candidates_props:
  assumes "scan_candidates fb off results = Inr rs"
    and "\<forall>r\<in>set results. in_bounds fb r \<and> offset r < off"
    and "sorted_wrt (\<lambda>a b. offset a < offset b) results"
  shows "(\<forall>r\<in>set rs. in_bounds fb r) \<and> sorted_wrt (\<lambda>a b. offset a < offset b) rs"
  using assms
proof (induction fb off results rule: scan_candidates.induct)
  case (1 fb off results)
  show ?case
  proof (cases "off \<le> size_sub (length fb) 12")
    case False
    with "1.prems"(1) have "rs = results"
      by (simp add: scan_candidates.simps [of fb off results])
    with "1.prems" show ?thesis by simp
  next
    case True
    from True "1.prems"(1) obtain ol orf where
      rd: "rd_u32 fb off = Some ol" "rd_u32 fb (off + 4) = Some orf"
      by (auto simp: scan_candidates.simps [of fb off results] Let_def split: option.splits)
    let ?plausible = "8 \<le> unat ol \<and> unat ol \<le> size_sub (length fb) off \<and> 8 \<le> unat orf \<and>
        unat orf \<le> size_sub (length fb) off \<and> unat orf \<ge> unat ol"
    show ?thesis
    proof (cases ?plausible)
      case False
      with True rd "1.prems"(1) have run: "scan_candidates fb (off + 4) results = Inr rs"
        by (simp add: scan_candidates.simps [of fb off results] Let_def)
      from "1.prems"(2) have "\<forall>r\<in>set results. in_bounds fb r \<and> offset r < off + 4" by auto
      from "1.IH"(2) [OF refl True rd(1) rd(2) refl False run this "1.prems"(3)]
      show ?thesis .
    next
      case plausible: True
      with True rd "1.prems"(1) obtain res where
        res: "validateAndGetConsumedSize fb off = Inr res"
        by (auto simp: scan_candidates.simps [of fb off results] Let_def split: sum.splits)
      let ?results = "if success res \<and> consumedBytes res > 0
                      then results @ [\<lparr>offset = off, consumedSize = consumedBytes res,
                                        decompressedSize_blk = decompressedSize res\<rparr>]
                      else results"
      from True rd plausible res "1.prems"(1) have
        run: "scan_candidates fb (off + 4) ?results = Inr rs"
        by (simp add: scan_candidates.simps [of fb off results] Let_def)
      have a: "\<forall>r\<in>set ?results. in_bounds fb r \<and> offset r < off + 4"
      proof (cases "success res \<and> consumedBytes res > 0")
        case True
        with validate_success_bounds [OF res] "1.prems"(2) show ?thesis
          by (auto simp: in_bounds_def)
      next
        case False
        with "1.prems"(2) show ?thesis by auto
      qed
      have b: "sorted_wrt (\<lambda>a b. offset a < offset b) ?results"
        using "1.prems"(2,3) by (auto simp: sorted_wrt_append)
      from "1.IH"(1) [OF refl True rd(1) rd(2) refl plausible res run a b]
      show ?thesis .
    qed
  qed
qed

lemma insert_sorted_front:
  assumes "\<forall>x\<in>set xs. offset r < offset x"
  shows "insert_sorted r xs = r # xs"
  using assms by (cases xs) (simp_all add: ScanResult_less_def)

lemma sort_results_sorted:
  "sorted_wrt (\<lambda>a b. offset a < offset b) rs \<Longrightarrow> sort_results rs = rs"
  by (induction rs) (simp_all add: insert_sorted_front)

lemma overlaps_kept_iff:
  "overlaps_kept off e kept \<longleftrightarrow> (\<exists>k\<in>set kept. \<not> (e \<le> fst k \<or> off \<ge> snd k))"
  by (induction kept) auto

lemma dedup_set: "set (dedup rs final kept) \<subseteq> set final \<union> set rs"
proof (induction rs arbitrary: final kept)
  case Nil
  show ?case by simp
next
  case (Cons r rs)
  have a: "set (dedup rs (final @ [r]) k) \<subseteq> set final \<union> set (r # rs)" for k
    using Cons.IH [of "final @ [r]" k] by auto
  have b: "set (dedup rs final kept) \<subseteq> set final \<union> set (r # rs)"
    using Cons.IH [of final kept] by auto
  from a b show ?case by (simp add: Let_def)
qed

lemma dedup_sorted:
  "sorted_wrt P (final @ rs) \<Longrightarrow> sorted_wrt P (dedup rs final kept)"
proof (induction rs arbitrary: final kept)
  case Nil
  then show ?case by simp
next
  case (Cons r rs)
  from Cons.prems have "sorted_wrt P ((final @ [r]) @ rs)" by simp
  moreover from Cons.prems have "sorted_wrt P (final @ rs)"
    by (auto simp: sorted_wrt_append)
  ultimately show ?case using Cons.IH by (simp add: Let_def)
qed

lemma dedup_disjoint:
  assumes "\<forall>r\<in>set rs. offset r + consumedSize r < 2 ^ 64"
    and "kept = map (\<lambda>r. (offset r, offset r + consumedSize r)) final"
    and "sorted_wrt (\<lambda>a b. block_interval a \<inter> block_interval b = {}) final"
  shows "sorted_wrt (\<lambda>a b. block_interval a \<inter> block_interval b = {}) (dedup rs final kept)"
  using assms
proof (induction rs arbitrary: final kept)
  case Nil
  then show ?case by simp
next
  case (Cons r rs)
  from Cons.prems(1) have e: "size_add (offset r) (consumedSize r) = offset r + consumedSize r"
    by (simp add: size_add_def)
  from Cons.prems(1) have rest: "\<forall>r\<in>set rs. offset r + consumedSize r < 2 ^ 64" by simp
  show ?case
  proof (cases "overlaps_kept (offset r) (offset r + consumedSize r) kept")
    case True
    with e have "dedup (r # rs) final kept = dedup rs final kept" by (simp add: Let_def)
    with Cons.IH [OF rest Cons.prems(2,3)] show ?thesis by simp
  next
    case False
    with e have unfold: "dedup (r # rs) final kept
        = dedup rs (final @ [r]) (kept @ [(offset r, offset r + consumedSize r)])"
      by (simp add: Let_def)
    from False Cons.prems(2) have
      "\<forall>x\<in>set final. offset r + consumedSize r \<le> offset x \<or>
                       offset r \<ge> offset x + consumedSize x"
      by (auto simp: overlaps_kept_iff)
    then have "\<forall>x\<in>set final. block_interval x \<inter> block_interval r = {}"
      by (auto simp: block_interval_def)
    with Cons.prems(3) have
      s': "sorted_wrt (\<lambda>a b. block_interval a \<inter> block_interval b = {}) (final @ [r])"
      by (simp add: sorted_wrt_append)
    from Cons.prems(2) have
      k': "kept @ [(offset r, offset r + consumedSize r)]
         = map (\<lambda>r. (offset r, offset r + consumedSize r)) (final @ [r])"
      by simp
    from Cons.IH [OF rest k' s'] show ?thesis by (simp only: unfold)
  qed
qed

lemma scanContainer_candidates:
  assumes "scanContainer fb = Inr rs"
  obtains cands where "scan_candidates fb 0 [] = Inr cands"
    "rs = dedup cands [] []"
    "\<forall>r\<in>set cands. in_bounds fb r"
    "sorted_wrt (\<lambda>a b. offset a < offset b) cands"
proof -
  from assms obtain cands where c: "scan_candidates fb 0 [] = Inr cands"
    and rs: "rs = dedup (sort_results cands) [] []"
    by (auto simp: scanContainer_def split: sum.splits)
  from scan_candidates_props [OF c] have
    p: "\<forall>r\<in>set cands. in_bounds fb r" "sorted_wrt (\<lambda>a b. offset a < offset b) cands"
    by simp_all
  from rs sort_results_sorted [OF p(2)] have "rs = dedup cands [] []" by simp
  with c p that show thesis by blast
qed

lemma scanContainer_in_bounds:
  assumes "scanContainer fb = Inr rs"
  shows "\<forall>r\<in>set rs. in_bounds fb r"
proof -
  from assms obtain cands where "rs = dedup cands [] []" "\<forall>r\<in>set cands. in_bounds fb r"
    by (rule scanContainer_candidates)
  with dedup_set [of cands "[]" "[]"] show ?thesis by auto
qed

lemma scanContainer_ordered_disjoint:
  assumes "length fb < 2 ^ 64" and "scanContainer fb = Inr rs"
  shows "sorted_wrt (\<lambda>a b. offset a < offset b) rs"
    and "sorted_wrt (\<lambda>a b. block_interval a \<inter> block_interval b = {}) rs"
proof -
  from assms(2) obtain cands where rs: "rs = dedup cands [] []"
    and b: "\<forall>r\<in>set cands. in_bounds fb r"
    and s: "sorted_wrt (\<lambda>a b. offset a < offset b) cands"
    by (rule scanContainer_candidates)
  from s show "sorted_wrt (\<lambda>a b. offset a < offset b) rs"
    unfolding rs by (intro dedup_sorted) simp
  from b assms(1) have "\<forall>r\<in>set cands. offset r + consumedSize r < 2 ^ 64"
    by (auto simp: in_bounds_def)
  then show "sorted_wrt (\<lambda>a b. block_interval a \<inter> block_interval b = {}) rs"
    unfolding rs by (intro dedup_disjoint) simp_all
qed

text \<open>
  The buffer of the examples below: a block of 14 bytes at offset 0 that decompresses to
  nothing, a second block of 14 bytes at offset 4 inside the first one, and after two
  bytes of padding a block of 17 bytes at offset 20.
\<close>

lemma scan_example:
  "scanContainer
     [12, 0, 0, 0, 12, 0, 0, 0, 12, 0, 0, 0, 0, 0, 0, 0, 0, 0, 0, 0,
      12, 0, 0, 0, 13, 0, 0, 0, 0, 0, 0, 0x80, 0xAB, 0x10, 0, 0, 0]
   = Inr [\<lparr>offset = 0, consumedSize = 14, decompressedSize_blk = 0\<rparr>,
          \<lparr>offset = 20, consumedSize = 17, decompressedSize_blk = 3\<rparr>]"
  by (simp add: val_eval scan_eval read_eval)

text \<open>
  Claim C6: in the result of the scanner on a buffer (a vector, so shorter than
  \<open>2 ^ 64\<close> bytes) the intervals \<open>[offset, offset + consumedSize)\<close> of any two
  different descriptors are disjoint, and the offsets are strictly increasing along the
  result.
\<close>

theorem scan_result_ordered_and_disjoint:
  assumes "length fileBuffer < 2 ^ 64" and "scanContainer fileBuffer = Inr rs"
  shows "(\<forall>i j. i < length rs \<and> j < length rs \<and> i \<noteq> j \<longrightarrow>
            block_interval (rs ! i) \<inter> block_interval (rs ! j) = {})
         \<and> (\<forall>i j. i < j \<and> j < length rs \<longrightarrow> offset (rs ! i) < offset (rs ! j))"
proof -
  from scanContainer_ordered_disjoint [OF assms] have
    ord: "\<And>i j. i < j \<Longrightarrow> j < length rs \<Longrightarrow> offset (rs ! i) < offset (rs ! j)" and
    dis: "\<And>i j. i < j \<Longrightarrow> j < length rs \<Longrightarrow>
            block_interval (rs ! i) \<inter> block_interval (rs ! j) = {}"
    by (simp_all add: sorted_wrt_iff_nth_less)
  have "block_interval (rs ! i) \<inter> block_interval (rs ! j) = {}"
    if "i < length rs" "j < length rs" "i \<noteq> j" for i j
  proof (cases "i < j")
    case True
    with that dis show ?thesis by simp
  next
    case False
    with that have "j < i" by simp
    from dis [OF this that(1)] show ?thesis by (simp add: Int_commute)
  qed
  with ord show ?thesis by blast
qed

theorem scan_result_ordered_and_disjoint_witness:
  "length ([12, 0, 0, 0, 12, 0, 0, 0, 12, 0, 0, 0, 0, 0, 0, 0, 0, 0, 0, 0,
      12, 0, 0, 0, 13, 0, 0, 0, 0, 0, 0, 0x80, 0xAB, 0x10, 0, 0, 0] :: byte list) < 2 ^ 64
   \<and> scanContainer
     [12, 0, 0, 0, 12, 0, 0, 0, 12, 0, 0, 0, 0, 0, 0, 0, 0, 0, 0, 0,
      12, 0, 0, 0, 13, 0, 0, 0, 0, 0, 0, 0x80, 0xAB, 0x10, 0, 0, 0]
     = Inr [\<lparr>offset = 0, consumedSize = 14, decompressedSize_blk = 0\<rparr>,
            \<lparr>offset = 20, consumedSize = 17, decompressedSize_blk = 3\<rparr>]
   \<and> block_interval \<lparr>offset = 0, consumedSize = 14, decompressedSize_blk = 0\<rparr>
       \<inter> block_interval \<lparr>offset = 20, consumedSize = 17, decompressedSize_blk = 3\<rparr> = {}
   \<and> offset \<lparr>offset = 0, consumedSize = 14, decompressedSize_blk = 0\<rparr>
       < offset \<lparr>offset = 20, consumedSize = 17, decompressedSize_blk = 3\<rparr>"
proof -
  let ?B = "[12, 0, 0, 0, 12, 0, 0, 0, 12, 0, 0, 0, 0, 0, 0, 0, 0, 0, 0, 0,
      12, 0, 0, 0, 13, 0, 0, 0, 0, 0, 0, 0x80, 0xAB, 0x10, 0, 0, 0] :: byte list"
  let ?rs = "[\<lparr>offset = 0, consumedSize = 14, decompressedSize_blk = 0\<rparr>,
              \<lparr>offset = 20, consumedSize = 17, decompressedSize_blk = 3\<rparr>]"
  have len: "length ?B < 2 ^ 64" by simp
  from scan_result_ordered_and_disjoint [OF len scan_example] have
    "0 < length ?rs \<and> 1 < length ?rs \<and> (0 :: nat) \<noteq> 1 \<longrightarrow>
       block_interval (?rs ! 0) \<inter> block_interval (?rs ! 1) = {}"
    "(0 :: nat) < 1 \<and> 1 < length ?rs \<longrightarrow> offset (?rs ! 0) < offset (?rs ! 1)"
    by blast+
  with len scan_example show ?thesis by simp
qed

text \<open>
  Claim C9: whenever the validator reports success at a start offset, the accepted
  interval lies inside the buffer, \<open>startOffset + consumedBytes \<le> length\<close>, and the
  consumed size is at least 14; so every descriptor in a result of the scanner denotes a
  slice inside the buffer of at least 14 bytes.
\<close>

theorem validated_block_in_bounds:
  "(validateAndGetConsumedSize fileBuffer startOffset = Inr res \<and> success res \<longrightarrow>
      startOffset + consumedBytes res \<le> length fileBuffer \<and> 14 \<le> consumedBytes res)
   \<and> (scanContainer fileBuffer = Inr rs \<longrightarrow>
        (\<forall>r\<in>set rs. offset r + consumedSize r \<le> length fileBuffer \<and> 14 \<le> consumedSize r))"
  using validate_success_bounds [of fileBuffer startOffset res]
    scanContainer_in_bounds [of fileBuffer rs]
  by (auto simp: in_bounds_def)

theorem validated_block_in_bounds_witness:
  "validateAndGetConsumedSize
     [12, 0, 0, 0, 12, 0, 0, 0, 12, 0, 0, 0, 0, 0, 0, 0, 0, 0, 0, 0,
      12, 0, 0, 0, 13, 0, 0, 0, 0, 0, 0, 0x80, 0xAB, 0x10, 0, 0, 0] 20
     = Inr \<lparr>success = True, consumedBytes = 17, decompressedSize = 3\<rparr>
   \<and> 20 + 17 \<le> length ([12, 0, 0, 0, 12, 0, 0, 0, 12, 0, 0, 0, 0, 0, 0, 0, 0, 0, 0, 0,
      12, 0, 0, 0, 13, 0, 0, 0, 0, 0, 0, 0x80, 0xAB, 0x10, 0, 0, 0] :: byte list)
   \<and> scanContainer
     [12, 0, 0, 0, 12, 0, 0, 0, 12, 0, 0, 0, 0, 0, 0, 0, 0, 0, 0, 0,
      12, 0, 0, 0, 13, 0, 0, 0, 0, 0, 0, 0x80, 0xAB, 0x10, 0, 0, 0]
     = Inr [\<lparr>offset = 0, consumedSize = 14, decompressedSize_blk = 0\<rparr>,
            \<lparr>offset = 20, consumedSize = 17, decompressedSize_blk = 3\<rparr>]
   \<and> offset \<lparr>offset = 20, consumedSize = 17, decompressedSize_blk = 3\<rparr>
       + consumedSize \<lparr>offset = 20, consumedSize = 17, decompressedSize_blk = 3\<rparr>
       \<le> length ([12, 0, 0, 0, 12, 0, 0, 0, 12, 0, 0, 0, 0, 0, 0, 0, 0, 0, 0, 0,
      12, 0, 0, 0, 13, 0, 0, 0, 0, 0, 0, 0x80, 0xAB, 0x10, 0, 0, 0] :: byte list)"
proof -
  let ?B = "[12, 0, 0, 0, 12, 0, 0, 0, 12, 0, 0, 0, 0, 0, 0, 0, 0, 0, 0, 0,
      12, 0, 0, 0, 13, 0, 0, 0, 0, 0, 0, 0x80, 0xAB, 0x10, 0, 0, 0] :: byte list"
  let ?res = "\<lparr>success = True, consumedBytes = 17, decompressedSize = 3\<rparr>"
  let ?rs = "[\<lparr>offset = 0, consumedSize = 14, decompressedSize_blk = 0\<rparr>,
              \<lparr>offset = 20, consumedSize = 17, decompressedSize_blk = 3\<rparr>]"
  have v: "validateAndGetConsumedSize ?B 20 = Inr ?res"
    by (simp add: val_eval read_eval)
  from validated_block_in_bounds [of ?B 20 ?res ?rs] v scan_example have
    "20 + consumedBytes ?res \<le> length ?B"
    "\<forall>r\<in>set ?rs. offset r + consumedSize r \<le> length ?B \<and> 14 \<le> consumedSize r"
    by simp_all
  with v scan_example show ?thesis by simp
qed

section \<open>The scanner on buffers shorter than a header\<close>

lemma size_sub_underflow: "n < 12 \<Longrightarrow> size_sub n 12 = n + 18446744073709551604"
  by (simp add: size_sub_def)

lemma validate_short:
  "length fileBuffer < 12 \<Longrightarrow>
   validateAndGetConsumedSize fileBuffer 0
     = Inr \<lparr>success = False, consumedBytes = 0, decompressedSize = 0\<rparr>"
  by (simp add: validateAndGetConsumedSize_def size_add_def)

lemma scan_candidates_second_oob:
  assumes "8 \<le> length fileBuffer" "length fileBuffer < 12"
  shows "scan_candidates fileBuffer 4 results = Inl OutOfBounds"
  using assms
  by (subst scan_candidates.simps) (simp add: size_sub_underflow rd_u32_def Let_def)

lemma scan_candidates_short_oob:
  assumes "length fileBuffer < 12"
  shows "scan_candidates fileBuffer 0 [] = Inl OutOfBounds"
proof (cases "length fileBuffer < 8")
  case True
  then show ?thesis
    by (subst scan_candidates.simps) (simp add: rd_u32_def Let_def)
next
  case False
  with assms have len: "8 \<le> length fileBuffer" "length fileBuffer < 12" by simp_all
  show ?thesis
    by (subst scan_candidates.simps)
       (simp add: Let_def validate_short [OF assms] scan_candidates_second_oob [OF len]
             split: option.split)
qed

text \<open>
  Claim C1 says that on every buffer shorter than 12 bytes the scanner returns an empty
  result without any out-of-bounds access. The code does the opposite: the loop bound
  \<^verbatim>\<open>n - 12\<close> is an unsigned subtraction that wraps to a huge value, the loop body runs,
  and one of the two header reads at offset 0 or at offset 4 falls outside the vector.
  On every buffer shorter than 12 bytes the scanner reads out of bounds.
\<close>

theorem scanContainer_short_buffer_out_of_bounds:
  "length fileBuffer < 12 \<Longrightarrow> scanContainer fileBuffer = Inl OutOfBounds"
  by (simp add: scanContainer_def scan_candidates_short_oob)

theorem scanContainer_short_buffer_out_of_bounds_witness:
  "length [0 :: byte] < 12 \<and> scanContainer [0 :: byte] = Inl OutOfBounds"
  using scanContainer_short_buffer_out_of_bounds [of "[0]"] by simp

section \<open>The validator inside the size range\<close>

lemma rd_u8_some: "i < length buf \<Longrightarrow> \<exists>b. rd_u8 buf i = Some b"
  by (simp add: rd_u8_def)

lemma rd_u16_some: "i + 2 \<le> length buf \<Longrightarrow> \<exists>v. rd_u16 buf i = Some v"
  by (simp add: rd_u16_def)

lemma val_literal_no_fault:
  assumes "so + rem \<le> length fb" "op \<le> rem"
  shows "val_literal fb so op st \<noteq> VFault"
proof (cases "lit_pos st \<ge> op")
  case True
  then show ?thesis by (simp add: val_literal_def)
next
  case False
  with assms have "so + lit_pos st < length fb" by simp
  from rd_u8_some [OF this] False show ?thesis by (auto simp: val_literal_def)
qed

lemma val_pair_no_fault:
  assumes "so + rem \<le> length fb"
  shows "val_pair fb so rem st \<noteq> VFault"
proof (cases "pair_pos st + 2 > rem")
  case True
  then show ?thesis by (simp add: val_pair_def)
next
  case False
  with assms have "so + pair_pos st + 2 \<le> length fb" by simp
  from rd_u16_some [OF this] False show ?thesis
    by (auto simp: val_pair_def Let_def add.assoc split: if_splits)
qed

lemma val_bit_no_fault:
  assumes "so + rem \<le> length fb" "op \<le> rem"
  shows "val_bit fb so rem op st \<noteq> VFault"
  using val_literal_no_fault [OF assms] val_pair_no_fault [OF assms(1)]
  by (simp add: val_bit_def Let_def)

lemma val_iter_no_fault:
  assumes "so + rem \<le> length fb" "ol \<le> rem" "op \<le> rem"
  shows "val_iter fb so rem ol op st \<noteq> VFault"
proof (cases "mask_w st = 0 \<and> \<not> flags_pos st + 4 > ol")
  case True
  with assms have "so + flags_pos st + 4 \<le> length fb" by simp
  from rd_u32_some [OF this] True val_bit_no_fault [OF assms(1,3)] show ?thesis
    by (auto simp: val_iter_def)
next
  case False
  with val_bit_no_fault [OF assms(1,3)] show ?thesis by (auto simp: val_iter_def)
qed

lemma val_loop_no_fault:
  assumes "so + rem \<le> length fb" "ol \<le> rem" "op \<le> rem"
  shows "\<exists>e. val_loop fb so rem ol op st = Inr e"
proof -
  from val_reach_last obtain s where
    s: "val_reach fb so rem ol op st s" "\<forall>x. val_iter fb so rem ol op s \<noteq> VContinue x"
    by blast
  with val_iter_no_fault [OF assms, of s] have "\<exists>e. val_loop fb so rem ol op s = Inr e"
    by (cases "val_iter fb so rem ol op s") (simp_all add: val_loop.simps [of fb so rem ol op s])
  with val_reach_loop [OF s(1)] show ?thesis by simp
qed

lemma val_loop_returned_success:
  "val_loop fb so rem ol op st = Inr (Returned r) \<Longrightarrow> success r"
  using val_loop_returned by blast

text \<open>
  The validator is safe at every start offset for which \<^verbatim>\<open>startOffset + 12\<close> does not
  wrap: it returns a result, and a result that is not a success has both sizes 0.
\<close>

lemma validate_no_fault:
  assumes "startOffset + 12 < 2 ^ 64"
  shows "\<exists>res. validateAndGetConsumedSize fileBuffer startOffset = Inr res \<and>
               (\<not> success res \<longrightarrow> consumedBytes res = 0 \<and> decompressedSize res = 0)"
proof (cases "val_ready fileBuffer startOffset")
  case False
  from assms have add: "size_add startOffset 12 = startOffset + 12" by (simp add: size_add_def)
  show ?thesis
  proof (cases "startOffset + 12 > length fileBuffer")
    case True
    with add show ?thesis by (simp add: validateAndGetConsumedSize_def)
  next
    case le: False
    then obtain w0 w1 where w: "rd_u32 fileBuffer startOffset = Some w0"
      "rd_u32 fileBuffer (startOffset + 4) = Some w1"
      using rd_u32_some [of startOffset fileBuffer] rd_u32_some [of "startOffset + 4" fileBuffer]
      by auto
    with False le add show ?thesis
      by (auto simp: validateAndGetConsumedSize_def val_ready_def block_off_literals_def
                     block_off_pairs_def Let_def)
  qed
next
  case True
  let ?rem = "size_sub (length fileBuffer) startOffset"
  let ?ol = "block_off_literals fileBuffer startOffset"
  let ?op = "block_off_pairs fileBuffer startOffset"
  from assms have add: "size_add startOffset 12 = startOffset + 12" by (simp add: size_add_def)
  with True have le: "startOffset + 12 \<le> length fileBuffer" by (simp add: val_ready_def)
  have "?rem \<le> length fileBuffer - startOffset"
  proof -
    from le have "length fileBuffer + 2 ^ 64 - startOffset
                    = (length fileBuffer - startOffset) + 2 ^ 64" by simp
    then have "?rem = (length fileBuffer - startOffset) mod 2 ^ 64"
      unfolding size_sub_def by (simp only: mod_add_self2)
    then show ?thesis by (simp only: mod_less_eq_dividend)
  qed
  with le have b: "startOffset + ?rem \<le> length fileBuffer" by simp
  from True have c: "?ol \<le> ?rem" "?op \<le> ?rem" by (simp_all add: val_ready_def)
  from val_loop_no_fault [OF b c] obtain e where
    e: "val_loop fileBuffer startOffset ?rem ?ol ?op (val_init ?ol ?op) = Inr e" by blast
  show ?thesis
  proof (cases e)
    case (Broke x)
    with e validate_ready [OF True] show ?thesis by simp
  next
    case (Returned r)
    with e val_loop_returned_success have "success r" by blast
    with Returned e validate_ready [OF True] show ?thesis by simp
  qed
qed

section \<open>The size of the validator's count\<close>

lemma bits_left_zero: "bits_left 0 = 0"
  by (simp add: bits_left.simps)

lemma bits_left_shift: "m \<noteq> 0 \<Longrightarrow> bits_left m = Suc (bits_left (drop_bit 1 m))"
  by (subst bits_left.simps) simp

lemma bits_left_top: "bits_left (0x40000000 :: 32 word) = 31"
  by (simp add: bits_left.simps)

lemma val_copy_count:
  "decompressedSize_cnt (val_copy ofs i len s) = decompressedSize_cnt s + (len - i)"
proof (induction ofs i len s rule: val_copy.induct)
  case (1 ofs i len s)
  show ?case
  proof (cases "i < len")
    case True
    let ?b = "dict_buf s ! ((ofs + i) mod 4096)"
    let ?s = "s\<lparr>decompressedSize_cnt := decompressedSize_cnt s + 1,
                dict_buf := (dict_buf s)[dict_index s := ?b],
                dict_index := (dict_index s + 1) mod 4096\<rparr>"
    have "val_copy ofs i len s = val_copy ofs (i + 1) len ?s"
      using True by (subst val_copy.simps) (simp add: Let_def)
    with "1.IH" [OF True refl] True show ?thesis by simp
  next
    case False
    then show ?thesis by (simp add: val_copy.simps [of ofs i len s])
  qed
qed

lemma pair_length_le: "unat ((v :: 16 word) AND 0xF) + 2 \<le> 17"
  by (simp add: pair_length_mod)

lemma val_bit_budget:
  assumes "val_bit fb so rem op s = VContinue s'"
  shows "decompressedSize_cnt s' \<le> decompressedSize_cnt s + 17 \<and> flags_pos s' = flags_pos s \<and>
         mask_w s' = drop_bit 1 (mask_w s)"
proof (cases "flag_word s AND mask_w s \<noteq> 0")
  case True
  with assms have "val_literal fb so op (s\<lparr>mask_w := drop_bit 1 (mask_w s)\<rparr>) = VContinue s'"
    by (simp add: val_bit_def)
  then show ?thesis by (auto simp: val_literal_def split: if_splits option.splits)
next
  case False
  with assms have "val_pair fb so rem (s\<lparr>mask_w := drop_bit 1 (mask_w s)\<rparr>) = VContinue s'"
    by (simp add: val_bit_def)
  then obtain v :: "16 word" where
    "s' = val_copy (unat (drop_bit 4 v)) 0 (unat (v AND 0xF) + 2)
            (s\<lparr>mask_w := drop_bit 1 (mask_w s), pair_pos := pair_pos s + 2\<rparr>)"
    by (auto simp: val_pair_def Let_def split: if_splits option.splits)
  with pair_length_le [of v] show ?thesis by (simp add: val_copy_count)
qed

lemma val_iter_budget:
  assumes "val_iter fb so rem ol op s = VContinue s'"
  shows "decompressedSize_cnt s' + 17 * flag_budget ol s' + 17
           \<le> decompressedSize_cnt s + 17 * flag_budget ol s + 17"
proof (cases "mask_w s = 0")
  case False
  with assms have "val_bit fb so rem op s = VContinue s'" by (simp add: val_iter_def)
  from val_bit_budget [OF this] bits_left_shift [OF False] show ?thesis
    by (simp add: flag_budget_def)
next
  case True
  with assms obtain w where le: "flags_pos s + 4 \<le> ol" and
    "val_bit fb so rem op
       (s\<lparr>mask_w := 0x80000000, flag_word := w, flags_pos := flags_pos s + 4\<rparr>) = VContinue s'"
    by (auto simp: val_iter_def split: if_splits option.splits)
  from val_bit_budget [OF this(2)] have
    c: "decompressedSize_cnt s' \<le> decompressedSize_cnt s + 17"
    and f: "flags_pos s' = flags_pos s + 4"
    and m: "bits_left (mask_w s') = 31"
    by (simp_all add: bits_left_top)
  from le have "(ol - flags_pos s) div 4 = Suc ((ol - (flags_pos s + 4)) div 4)"
    by presburger
  with c f m True show ?thesis by (simp add: flag_budget_def bits_left_zero)
qed

lemma val_loop_count:
  "val_loop fb so rem ol op st = Inr (Returned r) \<Longrightarrow>
   decompressedSize r \<le> decompressedSize_cnt st + 17 * flag_budget ol st"
proof (induction fb so rem ol op st rule: val_loop.induct)
  case (1 fb so rem ol op st)
  show ?case
  proof (cases "val_iter fb so rem ol op st")
    case (VContinue st')
    with "1.prems" have "val_loop fb so rem ol op st' = Inr (Returned r)"
      by (simp add: val_loop.simps [of fb so rem ol op st])
    from "1.IH" [OF VContinue this] val_iter_budget [OF VContinue] show ?thesis by simp
  next
    case (VBreak x)
    with "1.prems" show ?thesis by (simp add: val_loop.simps [of fb so rem ol op st])
  next
    case (VReturn r')
    with "1.prems" have "val_iter fb so rem ol op st = VReturn r"
      by (simp add: val_loop.simps [of fb so rem ol op st])
    then show ?thesis by (simp add: val_iter_return)
  next
    case VFault
    with "1.prems" show ?thesis by (simp add: val_loop.simps [of fb so rem ol op st])
  qed
qed

text \<open>
  The count of a validation stays far below \<open>2 ^ 64\<close>: the \<^verbatim>\<open>size_t\<close> counter
  \<^verbatim>\<open>decompressedSize\<close> of the source never wraps.
\<close>

lemma validate_count_bound:
  assumes "validateAndGetConsumedSize fileBuffer startOffset = Inr res"
  shows "decompressedSize res < 2 ^ 40"
proof (cases "success res")
  case False
  then have "decompressedSize res = 0"
    using assms
    by (auto simp: validateAndGetConsumedSize_def Let_def val_loop_returned_success
             split: if_splits option.splits sum.splits val_end.splits)
  then show ?thesis by simp
next
  case True
  with assms obtain w0 w1 :: "32 word" and rem where
    "val_loop fileBuffer startOffset rem (unat w0) (unat w1) (val_init (unat w0) (unat w1))
       = Inr (Returned res)"
    by (rule validate_success_run) blast
  from val_loop_count [OF this] have "decompressedSize res \<le> 17 * (32 * ((unat w0 - 8) div 4))"
    by (simp add: val_init_def flag_budget_def bits_left_zero)
  moreover have "unat w0 < 2 ^ 32" using unsigned_less [of w0, where ?'a = nat] by simp
  ultimately show ?thesis by simp
qed

section \<open>The validator at offsets near the end of the size range\<close>

text \<open>
  Claim C2 says that the validator reads no index outside the buffer for every buffer and
  every start offset. That holds for every start offset below \<open>2 ^ 64 - 12\<close>
  (\<open>validate_no_fault\<close> above). At the start offset \<open>2 ^ 64 - 12\<close> the guard
  \<^verbatim>\<open>startOffset + 12 > fileBuffer.size()\<close> wraps to \<^verbatim>\<open>0 > 12\<close>, the function goes on
  and reads the first header word at \<^verbatim>\<open>fileBuffer.data() + startOffset\<close>, outside the
  12-byte vector.
\<close>

theorem validateAndGetConsumedSize_offset_wrap_out_of_bounds:
  "validateAndGetConsumedSize (replicate 12 0) 18446744073709551604 = Inl OutOfBounds"
  by (simp add: validateAndGetConsumedSize_def read_eval)

section \<open>A block that decompresses to nothing\<close>

text \<open>
  Claim C10: there is a buffer and a start offset at which the validator reports success
  with a decompressed size of 0, and the scanner keeps that block. The buffer is the
  14-byte block with \<^verbatim>\<open>off_literals = off_pairs = 12\<close>, one flag word whose first bit
  selects a reference, and the pair code \<^verbatim>\<open>0x0000\<close>, the terminator.
\<close>

theorem empty_block_validated_and_scanned:
  "validateAndGetConsumedSize [12, 0, 0, 0, 12, 0, 0, 0, 0, 0, 0, 0, 0, 0] 0
     = Inr \<lparr>success = True, consumedBytes = 14, decompressedSize = 0\<rparr>
   \<and> scanContainer [12, 0, 0, 0, 12, 0, 0, 0, 0, 0, 0, 0, 0, 0]
     = Inr [\<lparr>offset = 0, consumedSize = 14, decompressedSize_blk = 0\<rparr>]"
  by (simp add: val_eval scan_eval read_eval)

end
